theory Spec2Isabelle
  imports Main "HOL-Library.Sublist"
begin

text \<open>
  The booking server in its two revisions, over the tables of schema.sql. The later
  revision (slots C, A and B, sentinel bookings, the optional email) carries the names of
  the source; the handlers of the earlier revision, server.js (slots A and B only, no
  sentinel bookings, no email), carry the suffix \<open>_earlier\<close>. Both revisions share
  \<open>todayCST\<close>, \<open>toISODate\<close>, \<open>isWeekday\<close>, \<open>rollingWindow\<close> and the transaction helper
  \<open>withTx\<close>, and both run on the same two tables.
\<close>

section \<open>The JavaScript runtime the server relies on\<close>

subsection \<open>Day arithmetic of the Date object\<close>

text \<open>
  Every Date object the server builds sits at UTC midnight (\<open>Date.UTC(y, m, d)\<close>, the
  string \<open>...T00:00:00Z\<close>, \<open>setUTCDate\<close> keeping the time within the day), so a Date is
  represented by its day number, the days since 1970-01-01, and Invalid Date (time value
  NaN) by \<open>None\<close>. The clock reading of \<open>new Date()\<close> is a time value in milliseconds.
  The functions follow the ECMAScript definitions of the same names, on day numbers.
\<close>

definition msPerDay :: int where
  "msPerDay = 86400000"

definition Day :: "int \<Rightarrow> int" where
  "Day t = t div msPerDay"

definition DaysInYear :: "int \<Rightarrow> int" where
  "DaysInYear y =
     (if y mod 4 \<noteq> 0 then 365
      else if y mod 100 \<noteq> 0 then 366
      else if y mod 400 \<noteq> 0 then 365
      else 366)"

definition DayFromYear :: "int \<Rightarrow> int" where
  "DayFromYear y =
     365 * (y - 1970) + (y - 1969) div 4 - (y - 1901) div 100 + (y - 1601) div 400"

text \<open>
  ECMAScript defines the year of a day as the largest \<open>y\<close> with \<open>DayFromYear y \<le> d\<close>.
  It is computed here from an estimate that is off by at most one; lemma
  \<open>YearFromDay_bounds\<close> below shows that the result is that largest year.
\<close>

definition YearFromDay :: "int \<Rightarrow> int" where
  "YearFromDay d =
     (let e = 1970 + (400 * d) div 146097
      in if DayFromYear (e + 1) \<le> d then e + 1
         else if DayFromYear e \<le> d then e
         else e - 1)"

definition InLeapYear :: "int \<Rightarrow> int" where
  "InLeapYear y = (if DaysInYear y = 366 then 1 else 0)"

definition DayWithinYear :: "int \<Rightarrow> int" where
  "DayWithinYear d = d - DayFromYear (YearFromDay d)"

text \<open>The day within the year on which month \<open>m\<close> (0 = January) starts; \<open>l\<close> is 1 in a leap year.\<close>

definition MonthStart :: "int \<Rightarrow> int \<Rightarrow> int" where
  "MonthStart l m =
     (if m = 0 then 0 else if m = 1 then 31 else if m = 2 then 59 + l
      else if m = 3 then 90 + l else if m = 4 then 120 + l
      else if m = 5 then 151 + l else if m = 6 then 181 + l
      else if m = 7 then 212 + l else if m = 8 then 243 + l
      else if m = 9 then 273 + l else if m = 10 then 304 + l
      else 334 + l)"

definition MonthFromDay :: "int \<Rightarrow> int" where
  "MonthFromDay d =
     (let w = DayWithinYear d; l = InLeapYear (YearFromDay d)
      in if w < 31 then 0 else if w < 59 + l then 1 else if w < 90 + l then 2
         else if w < 120 + l then 3 else if w < 151 + l then 4
         else if w < 181 + l then 5 else if w < 212 + l then 6
         else if w < 243 + l then 7 else if w < 273 + l then 8
         else if w < 304 + l then 9 else if w < 334 + l then 10
         else 11)"

definition DateFromDay :: "int \<Rightarrow> int" where
  "DateFromDay d =
     DayWithinYear d - MonthStart (InLeapYear (YearFromDay d)) (MonthFromDay d) + 1"

text \<open>Day 0 (1970-01-01) was a Thursday; 0 is Sunday.\<close>

definition WeekDay :: "int \<Rightarrow> int" where
  "WeekDay d = (d + 4) mod 7"

text \<open>\<open>MakeDay\<close> takes a 0-based month and lets month and date overflow.\<close>

definition MakeDay :: "int \<Rightarrow> int \<Rightarrow> int \<Rightarrow> int" where
  "MakeDay year month date =
     (let ym = year + month div 12; mn = month mod 12
      in DayFromYear ym + MonthStart (InLeapYear ym) mn + date - 1)"

text \<open>A time value beyond 8.64e15 ms, that is 100 000 000 days, is NaN.\<close>

definition TimeClip :: "int \<Rightarrow> int option" where
  "TimeClip d = (if \<bar>d\<bar> \<le> 100000000 then Some d else None)"

definition Date_UTC :: "int \<Rightarrow> int \<Rightarrow> int \<Rightarrow> int option" where
  "Date_UTC y m dt =
     (let yr = (if 0 \<le> y \<and> y \<le> 99 then 1900 + y else y)
      in TimeClip (MakeDay yr m dt))"

definition getUTCFullYear :: "int option \<Rightarrow> int option" where
  "getUTCFullYear t = map_option YearFromDay t"

definition getUTCMonth :: "int option \<Rightarrow> int option" where
  "getUTCMonth t = map_option MonthFromDay t"

definition getUTCDate :: "int option \<Rightarrow> int option" where
  "getUTCDate t = map_option DateFromDay t"

definition getUTCDay :: "int option \<Rightarrow> int option" where
  "getUTCDay t = map_option WeekDay t"

definition setUTCDate :: "int option \<Rightarrow> int option \<Rightarrow> int option" where
  "setUTCDate t dt =
     (case (t, dt) of
        (Some d, Some n) \<Rightarrow> TimeClip (MakeDay (YearFromDay d) (MonthFromDay d) n)
      | _ \<Rightarrow> None)"

subsection \<open>Numbers and strings\<close>

definition digit_char :: "nat \<Rightarrow> char" where
  "digit_char n = char_of (48 + n)"

definition is_digit :: "char \<Rightarrow> bool" where
  "is_digit c = (48 \<le> (of_char c :: nat) \<and> (of_char c :: nat) \<le> 57)"

fun show_nat :: "nat \<Rightarrow> string" where
  "show_nat n = (if n < 10 then [digit_char n] else show_nat (n div 10) @ [digit_char (n mod 10)])"

declare show_nat.simps [simp del]

text \<open>\<open>String(n)\<close> for an integral Number; \<open>None\<close> is NaN.\<close>

definition Number_toString :: "int option \<Rightarrow> string" where
  "Number_toString v =
     (case v of
        None \<Rightarrow> ''NaN''
      | Some n \<Rightarrow> if n < 0 then CHR ''-'' # show_nat (nat (- n)) else show_nat (nat n))"

definition padStart :: "nat \<Rightarrow> char \<Rightarrow> string \<Rightarrow> string" where
  "padStart n c s = replicate (n - length s) c @ s"

text \<open>The value of a string of decimal digits, read left to right.\<close>

definition digits_val :: "string \<Rightarrow> nat" where
  "digits_val s = foldl (\<lambda>a c. 10 * a + (of_char c - 48)) 0 s"

text \<open>
  \<open>parseInt(s, 10)\<close>: leading white space is skipped, one sign is read, then the longest
  run of decimal digits; no digit at that point gives NaN. Characters are single bytes
  here, so of the white space of ECMAScript only the codes below 256 appear.
\<close>

definition StrWhiteSpaceChar :: "char \<Rightarrow> bool" where
  "StrWhiteSpaceChar c = ((of_char c :: nat) \<in> {9, 10, 11, 12, 13, 32, 160})"

definition parseInt :: "string \<Rightarrow> int option" where
  "parseInt s =
     (let t = dropWhile StrWhiteSpaceChar s;
          neg = (t \<noteq> [] \<and> hd t = CHR ''-'');
          u = (if t \<noteq> [] \<and> (hd t = CHR ''-'' \<or> hd t = CHR ''+'') then tl t else t);
          z = takeWhile is_digit u
      in if z = [] then None
         else Some (if neg then - int (digits_val z) else int (digits_val z)))"

definition Math_min :: "int option \<Rightarrow> int \<Rightarrow> int option" where
  "Math_min a b = map_option (\<lambda>x. min x b) a"

text \<open>\<open>q || dflt\<close> on a query or body string: undefined and the empty string are falsy.\<close>

definition or_default :: "string option \<Rightarrow> string \<Rightarrow> string" where
  "or_default q dflt = (case q of None \<Rightarrow> dflt | Some s \<Rightarrow> if s = [] then dflt else s)"

definition falsy :: "string option \<Rightarrow> bool" where
  "falsy q = (case q of None \<Rightarrow> True | Some s \<Rightarrow> s = [])"

subsection \<open>Parsing a date-time string\<close>

text \<open>
  \<open>new Date(s)\<close> for the ECMAScript format \<open>YYYY-MM-DDT00:00:00Z\<close>. Node's engine accepts
  a day of the month up to 31 whatever the month and lets it run over into the next month.
  Every other string is taken as unrecognised (Invalid Date): the year-only,
  year-and-month and expanded-year forms, and the engine's fallback formats, are left out.
\<close>

definition Date_parse :: "string \<Rightarrow> int option" where
  "Date_parse s =
     (if length s = 20 \<and> drop 10 s = ''T00:00:00Z''
         \<and> s ! 4 = CHR ''-'' \<and> s ! 7 = CHR ''-''
         \<and> list_all is_digit (take 4 s)
         \<and> list_all is_digit (take 2 (drop 5 s))
         \<and> list_all is_digit (take 2 (drop 8 s))
      then
        (let y = int (digits_val (take 4 s));
             m = int (digits_val (take 2 (drop 5 s)));
             d = int (digits_val (take 2 (drop 8 s)))
         in if 1 \<le> m \<and> m \<le> 12 \<and> 1 \<le> d \<and> d \<le> 31
            then TimeClip (MakeDay y (m - 1) d) else None)
      else None)"

section \<open>Dates of the booking window\<close>

text \<open>\<open>todayCST\<close>: the clock reading \<open>now\<close> (milliseconds) cut down to its UTC day.\<close>

definition todayCST :: "int \<Rightarrow> int option" where
  "todayCST now =
     (let n = Some (Day now)
      in case (getUTCFullYear n, getUTCMonth n, getUTCDate n) of
           (Some y, Some m, Some d) \<Rightarrow> Date_UTC y m d
         | _ \<Rightarrow> None)"

definition toISODate :: "int option \<Rightarrow> string" where
  "toISODate d =
     (let y = getUTCFullYear d;
          m = padStart 2 (CHR ''0'') (Number_toString (map_option (\<lambda>x. x + 1) (getUTCMonth d)));
          day = padStart 2 (CHR ''0'') (Number_toString (getUTCDate d))
      in Number_toString y @ ''-'' @ m @ ''-'' @ day)"

text \<open>A comparison with NaN is false, so an Invalid Date is no weekday.\<close>

definition isWeekday :: "int option \<Rightarrow> bool" where
  "isWeekday d = (case getUTCDay d of None \<Rightarrow> False | Some wd \<Rightarrow> wd \<ge> 1 \<and> wd \<le> 5)"

text \<open>The date the loop of \<open>rollingWindow\<close> looks at in round \<open>i\<close>.\<close>

definition scan_day :: "int option \<Rightarrow> int \<Rightarrow> int option" where
  "scan_day start i = setUTCDate start (map_option (\<lambda>x. x + i) (getUTCDate start))"

function rollingWindow_loop :: "int option \<Rightarrow> int \<Rightarrow> int \<Rightarrow> string list \<Rightarrow> string list" where
  "rollingWindow_loop start days i arr =
     (if i < days then
        (let d = scan_day start i
         in rollingWindow_loop start days (i + 1)
              (if isWeekday d then arr @ [toISODate d] else arr))
      else arr)"
  by pat_completeness auto
termination
  by (relation "measure (\<lambda>(start, days, i, arr). nat (days - i))") auto

declare rollingWindow_loop.simps [simp del]

text \<open>\<open>days\<close> is a Number: \<open>None\<close> is NaN, for which \<open>i < days\<close> is false at once.\<close>

definition rollingWindow :: "string \<Rightarrow> int option \<Rightarrow> string list" where
  "rollingWindow startStr days =
     (let start = Date_parse (startStr @ ''T00:00:00Z'')
      in case days of None \<Rightarrow> [] | Some n \<Rightarrow> rollingWindow_loop start n 0 [])"

text \<open>The raw scan: the dates of the \<open>n\<close> rounds of the loop, in order.\<close>

definition raw_scan :: "int option \<Rightarrow> int \<Rightarrow> int option list" where
  "raw_scan start n = map (scan_day start) [0..n - 1]"

section \<open>Slot configuration\<close>

definition SLOT_ORDER :: "string list" where
  "SLOT_ORDER = [''C'', ''A'', ''B'']"

definition SLOT_MAP :: "(string \<times> string \<times> string) list" where
  "SLOT_MAP =
     [(''C'', ''10:00'', ''12:00''),
      (''A'', ''13:00'', ''15:00''),
      (''B'', ''15:00'', ''17:00'')]"

definition SLOT_KEYS :: "string list" where
  "SLOT_KEYS = map fst SLOT_MAP"

definition ADMIN_NAME :: string where
  "ADMIN_NAME = ''Administrador''"

definition ADMIN_PHONE :: string where
  "ADMIN_PHONE = ''0''"

definition ADMIN_IG :: string where
  "ADMIN_IG = ''admin''"

text \<open>The earlier revision configures the slots A and B only.\<close>

definition SLOT_MAP_earlier :: "(string \<times> string \<times> string) list" where
  "SLOT_MAP_earlier =
     [(''A'', ''13:00'', ''15:00''),
      (''B'', ''15:00'', ''17:00'')]"

section \<open>Storage: the tables of schema.sql\<close>

text \<open>
  A row of \<open>bookings\<close> and a row of \<open>slot_overrides\<close>, with the columns that schema.sql
  declares. A \<open>DATE\<close> value is a day number. The constraints modelled are
  \<open>CHECK (slot IN ('A','B'))\<close> and \<open>UNIQUE (date, slot)\<close> on both tables; the \<open>NOT NULL\<close>
  columns hold values that are never null by their type.
\<close>

record booking =
  b_id :: int
  b_full_name :: string
  b_phone :: string
  b_instagram :: string
  b_date :: int
  b_slot :: string
  b_created_at :: int

record override =
  o_id :: int
  o_date :: int
  o_slot :: string
  o_is_open :: bool
  o_created_at :: int

text \<open>The columns of \<open>bookings\<close>: schema.sql declares no column \<open>email\<close>.\<close>

definition bookings_columns :: "string list" where
  "bookings_columns =
     [''id'', ''full_name'', ''phone'', ''instagram'', ''date'', ''slot'', ''created_at'']"

text \<open>
  The database: the two tables and the two \<open>SERIAL\<close> sequences. A sequence is not
  transactional: a value drawn inside a transaction that rolls back is not given back.
\<close>

record db =
  bookings :: "booking list"
  slot_overrides :: "override list"
  bookings_id_seq :: int
  slot_overrides_id_seq :: int

definition empty_db :: db where
  "empty_db = \<lparr>bookings = [], slot_overrides = [], bookings_id_seq = 1, slot_overrides_id_seq = 1\<rparr>"

text \<open>
  The errors of the database that the statements of the server can meet. A date text
  that is not read as a date is reported as \<open>invalid_datetime_format\<close>, whichever of its
  fields is at fault.
\<close>

datatype sql_error =
    undefined_column
  | invalid_byte_sequence
  | invalid_datetime_format
  | numeric_value_out_of_range
  | sequence_generator_limit_exceeded
  | check_violation
  | unique_violation

text \<open>The pieces of a string between the occurrences of a separator.\<close>

fun text_fields :: "char \<Rightarrow> string \<Rightarrow> string list" where
  "text_fields c [] = [[]]"
| "text_fields c (x # xs) =
     (if x = c then [] # text_fields c xs
      else (x # hd (text_fields c xs)) # tl (text_fields c xs))"

text \<open>
  A text parameter compared with or stored into a \<open>DATE\<close> column. Of the spellings that
  the database server reads, the one modelled is year, month and day separated by \<open>-\<close>,
  with a year of three or more digits and a month and a day of one or two digits:
  \<open>2024-06-03\<close>, \<open>2024-6-3\<close>, \<open>999-12-30\<close>, \<open>0999-12-30\<close>, \<open>10000-01-03\<close>. The day has to
  exist in the calendar and the year lies between 1 and 5874897. Every other string is
  taken as rejected. (The database server reads further spellings of a date. Of the
  dates that a window can hold, those of the year 100 and later have the spelling
  modelled here.)
\<close>

definition date_in :: "string \<Rightarrow> int option" where
  "date_in s =
     (case text_fields (CHR ''-'') s of
        [ys, ms, ds] \<Rightarrow>
          if 3 \<le> length ys \<and> list_all is_digit ys
             \<and> 1 \<le> length ms \<and> length ms \<le> 2 \<and> list_all is_digit ms
             \<and> 1 \<le> length ds \<and> length ds \<le> 2 \<and> list_all is_digit ds
          then
            (let y = int (digits_val ys);
                 m = int (digits_val ms);
                 d = int (digits_val ds);
                 x = MakeDay y (m - 1) d
             in if 1 \<le> y \<and> y \<le> 5874897
                   \<and> YearFromDay x = y \<and> MonthFromDay x = m - 1 \<and> DateFromDay x = d
                then Some x else None)
          else None
      | _ \<Rightarrow> None)"

text \<open>\<open>date::text\<close>: the ISO form, the year padded to four digits, with \<open>BC\<close> before year 1.\<close>

definition date_out :: "int \<Rightarrow> string" where
  "date_out x =
     (let y = YearFromDay x;
          md = ''-'' @ padStart 2 (CHR ''0'') (show_nat (nat (MonthFromDay x + 1)))
               @ ''-'' @ padStart 2 (CHR ''0'') (show_nat (nat (DateFromDay x)))
      in if 1 \<le> y then padStart 4 (CHR ''0'') (show_nat (nat y)) @ md
         else padStart 4 (CHR ''0'') (show_nat (nat (1 - y))) @ md @ '' BC'')"

definition slot_check :: "string \<Rightarrow> bool" where
  "slot_check s = (s \<in> {''A'', ''B''})"

text \<open>\<open>SELECT ... FROM bookings WHERE date=$1 AND slot=$2 FOR UPDATE\<close>\<close>

definition select_booking_for_update :: "db \<Rightarrow> string \<Rightarrow> string \<Rightarrow> sql_error + booking list" where
  "select_booking_for_update s date slot =
     (case date_in date of
        None \<Rightarrow> Inl invalid_datetime_format
      | Some d \<Rightarrow> Inr (filter (\<lambda>b. b_date b = d \<and> b_slot b = slot) (bookings s)))"

text \<open>\<open>SELECT is_open FROM slot_overrides WHERE date=$1 AND slot=$2\<close>\<close>

definition select_override :: "db \<Rightarrow> string \<Rightarrow> string \<Rightarrow> sql_error + override list" where
  "select_override s date slot =
     (case date_in date of
        None \<Rightarrow> Inl invalid_datetime_format
      | Some d \<Rightarrow> Inr (filter (\<lambda>ov. o_date ov = d \<and> o_slot ov = slot) (slot_overrides s)))"

text \<open>The largest value of a \<open>SERIAL\<close> column and of an \<open>integer\<close> parameter.\<close>

definition int4_max :: int where
  "int4_max = 2147483647"

text \<open>
  \<open>INSERT INTO bookings (columns) VALUES (...) RETURNING ...\<close>, for the list of columns
  that the statement names. A statement that names a column the table does not have is
  rejected when it is analysed, before a parameter is read and before the sequence is
  touched. A text parameter that holds a NUL byte is rejected when the parameters are
  bound; of the text parameters only the three contact fields can hold one (a date text
  with a NUL byte is no date, and the slot is one of the slot keys whenever a handler
  reaches a statement). The new row takes the next value of the sequence and the time
  \<open>now\<close>; the \<open>CHECK\<close> on the slot is tested before the unique index.
\<close>

definition insert_booking ::
  "db \<Rightarrow> int \<Rightarrow> string list \<Rightarrow> string \<Rightarrow> string \<Rightarrow> string \<Rightarrow> string \<Rightarrow> string
     \<Rightarrow> (sql_error + booking) \<times> db" where
  "insert_booking s now columns full_name phone instagram date slot =
     (if \<not> set columns \<subseteq> set bookings_columns then (Inl undefined_column, s)
      else if CHR 0x00 \<in> set full_name \<union> set phone \<union> set instagram
        then (Inl invalid_byte_sequence, s)
      else
        (case date_in date of
           None \<Rightarrow> (Inl invalid_datetime_format, s)
         | Some d \<Rightarrow>
             if int4_max < bookings_id_seq s then (Inl sequence_generator_limit_exceeded, s)
             else
               let row = \<lparr>b_id = bookings_id_seq s, b_full_name = full_name, b_phone = phone,
                          b_instagram = instagram, b_date = d, b_slot = slot,
                          b_created_at = now\<rparr>;
                   s1 = s\<lparr>bookings_id_seq := bookings_id_seq s + 1\<rparr>
               in if \<not> slot_check slot then (Inl check_violation, s1)
                  else if \<exists>b \<in> set (bookings s). b_date b = d \<and> b_slot b = slot
                    then (Inl unique_violation, s1)
                  else (Inr row, s1\<lparr>bookings := bookings s @ [row]\<rparr>)))"

text \<open>
  The columns named by the \<open>INSERT\<close> statements of the later revision (in \<open>/book\<close> and
  for the sentinel), and by the \<open>INSERT\<close> of the earlier revision.
\<close>

definition insert_columns :: "string list" where
  "insert_columns = [''full_name'', ''phone'', ''instagram'', ''email'', ''date'', ''slot'']"

definition insert_columns_earlier :: "string list" where
  "insert_columns_earlier = [''full_name'', ''phone'', ''instagram'', ''date'', ''slot'']"

text \<open>
  \<open>INSERT INTO slot_overrides (date, slot, is_open) VALUES ($1,$2,$3)
  ON CONFLICT (date, slot) DO UPDATE SET is_open = EXCLUDED.is_open\<close>
\<close>

definition upsert_override ::
  "db \<Rightarrow> int \<Rightarrow> string \<Rightarrow> string \<Rightarrow> bool \<Rightarrow> (sql_error + unit) \<times> db" where
  "upsert_override s now date slot is_open =
     (case date_in date of
        None \<Rightarrow> (Inl invalid_datetime_format, s)
      | Some d \<Rightarrow>
          if int4_max < slot_overrides_id_seq s then (Inl sequence_generator_limit_exceeded, s)
          else
            let row = \<lparr>o_id = slot_overrides_id_seq s, o_date = d, o_slot = slot,
                       o_is_open = is_open, o_created_at = now\<rparr>;
                s1 = s\<lparr>slot_overrides_id_seq := slot_overrides_id_seq s + 1\<rparr>
            in if \<not> slot_check slot then (Inl check_violation, s1)
               else if \<exists>ov \<in> set (slot_overrides s). o_date ov = d \<and> o_slot ov = slot
                 then (Inr (), s1\<lparr>slot_overrides :=
                         map (\<lambda>ov. if o_date ov = d \<and> o_slot ov = slot
                                    then ov\<lparr>o_is_open := is_open\<rparr> else ov)
                             (slot_overrides s)\<rparr>)
               else (Inr (), s1\<lparr>slot_overrides := slot_overrides s @ [row]\<rparr>))"

text \<open>
  \<open>DELETE FROM bookings WHERE date=$1 AND slot=$2 AND phone=$3 AND instagram=$4\<close>,
  returning \<open>rowCount\<close>.
\<close>

definition delete_booking_matching ::
  "db \<Rightarrow> string \<Rightarrow> string \<Rightarrow> string \<Rightarrow> string \<Rightarrow> (sql_error + nat) \<times> db" where
  "delete_booking_matching s date slot phone instagram =
     (case date_in date of
        None \<Rightarrow> (Inl invalid_datetime_format, s)
      | Some d \<Rightarrow>
          let hit = (\<lambda>b. b_date b = d \<and> b_slot b = slot \<and> b_phone b = phone
                          \<and> b_instagram b = instagram)
          in (Inr (length (filter hit (bookings s))),
              s\<lparr>bookings := filter (\<lambda>b. \<not> hit b) (bookings s)\<rparr>))"

text \<open>
  \<open>DELETE FROM bookings WHERE id=$1\<close>, returning \<open>rowCount\<close>. The parameter is compared
  with an \<open>integer\<close> column: a number outside the range of that type is rejected.
\<close>

definition delete_booking_by_id :: "db \<Rightarrow> int \<Rightarrow> (sql_error + nat) \<times> db" where
  "delete_booking_by_id s i =
     (if i < - int4_max - 1 \<or> int4_max < i then (Inl numeric_value_out_of_range, s)
      else (Inr (length (filter (\<lambda>b. b_id b = i) (bookings s))),
            s\<lparr>bookings := filter (\<lambda>b. b_id b \<noteq> i) (bookings s)\<rparr>))"

text \<open>\<open>SELECT date::text, slot FROM bookings WHERE date >= $1 AND date <= $2\<close>\<close>

definition select_bookings_between :: "db \<Rightarrow> string \<Rightarrow> string \<Rightarrow> sql_error + (string \<times> string) list" where
  "select_bookings_between s lo hi =
     (case (date_in lo, date_in hi) of
        (Some l, Some h) \<Rightarrow>
          Inr (map (\<lambda>b. (date_out (b_date b), b_slot b))
                 (filter (\<lambda>b. b_date b \<ge> l \<and> b_date b \<le> h) (bookings s)))
      | _ \<Rightarrow> Inl invalid_datetime_format)"

text \<open>\<open>SELECT date::text, slot, is_open FROM slot_overrides WHERE date >= $1 AND date <= $2\<close>\<close>

definition select_overrides_between ::
  "db \<Rightarrow> string \<Rightarrow> string \<Rightarrow> sql_error + (string \<times> string \<times> bool) list" where
  "select_overrides_between s lo hi =
     (case (date_in lo, date_in hi) of
        (Some l, Some h) \<Rightarrow>
          Inr (map (\<lambda>ov. (date_out (o_date ov), o_slot ov, o_is_open ov))
                 (filter (\<lambda>ov. o_date ov \<ge> l \<and> o_date ov \<le> h) (slot_overrides s)))
      | _ \<Rightarrow> Inl invalid_datetime_format)"

section \<open>Transactions\<close>

text \<open>
  What a transaction body throws: the two deliberate aborts of \<open>/book\<close>, or an error of
  the database.
\<close>

datatype tx_error = Ese_turno_ya_fue_reservado | Ese_turno_esta_cerrado | Sql sql_error

text \<open>
  \<open>withTx\<close>: \<open>BEGIN\<close>, the body, then \<open>COMMIT\<close> and the body's result, or, when the body
  throws, \<open>ROLLBACK\<close> and the same error thrown on. The body returns the state it
  reached next to its outcome; a rollback restores the tables and keeps the sequences.
  Failures of the connection itself are not modelled.
\<close>

definition withTx :: "(db \<Rightarrow> (tx_error + 'a) \<times> db) \<Rightarrow> db \<Rightarrow> (tx_error + 'a) \<times> db" where
  "withTx fn s =
     (case fn s of
        (Inr res, s') \<Rightarrow> (Inr res, s')
      | (Inl e, s') \<Rightarrow>
          (Inl e, s\<lparr>bookings_id_seq := bookings_id_seq s',
                     slot_overrides_id_seq := slot_overrides_id_seq s'\<rparr>))"

section \<open>The public endpoints\<close>

subsection \<open>GET /availability\<close>

text \<open>The window of the request: \<open>start\<close> and \<open>days\<close> as the handler derives them.\<close>

definition availability_window :: "int \<Rightarrow> string option \<Rightarrow> string option \<Rightarrow> string list" where
  "availability_window now qstart qdays =
     (let start = or_default qstart (toISODate (todayCST now));
          days = Math_min (parseInt (or_default qdays ''14'')) 31
      in rollingWindow start days)"

record slot_view =
  sv_open :: bool
  sv_booked :: bool
  sv_label :: string

record view_row =
  v_date :: string
  v_slots :: "(string \<times> slot_view) list"

definition slot_key :: "string \<Rightarrow> string \<Rightarrow> string" where
  "slot_key date slot = date @ ''|'' @ slot"

text \<open>\<open>new Map(entries)\<close>: a later entry replaces an earlier one with the same key.\<close>

definition Map_of_entries :: "('k \<times> 'v) list \<Rightarrow> 'k \<Rightarrow> 'v option" where
  "Map_of_entries es = map_of (rev es)"

definition slot_label :: "string \<Rightarrow> string" where
  "slot_label s = (case map_of SLOT_MAP s of Some (st, en) \<Rightarrow> st @ '' - '' @ en | None \<Rightarrow> [])"

definition availability_row :: "string set \<Rightarrow> (string \<Rightarrow> bool option) \<Rightarrow> string \<Rightarrow> view_row" where
  "availability_row bookedSet overrideMp date =
     (let order = filter (\<lambda>k. k \<in> set SLOT_KEYS) SLOT_ORDER
      in \<lparr>v_date = date,
          v_slots = map (\<lambda>s.
             let key = slot_key date s;
                 booked = (key \<in> bookedSet);
                 opn = (case overrideMp key of None \<Rightarrow> \<not> booked | Some f \<Rightarrow> f \<and> \<not> booked)
             in (s, \<lparr>sv_open = opn, sv_booked = booked, sv_label = slot_label s\<rparr>)) order\<rparr>)"

text \<open>
  The handler has no \<open>try\<close>: an error of a query leaves the request unanswered, which is
  the \<open>Inl\<close> result.
\<close>

definition availability ::
  "int \<Rightarrow> string option \<Rightarrow> string option \<Rightarrow> db \<Rightarrow> sql_error + view_row list" where
  "availability now qstart qdays s =
     (let dates = availability_window now qstart qdays
      in if dates = [] then Inr []
         else case select_bookings_between s (hd dates) (last dates) of
                Inl e \<Rightarrow> Inl e
              | Inr bks \<Rightarrow>
                  (case select_overrides_between s (hd dates) (last dates) of
                     Inl e \<Rightarrow> Inl e
                   | Inr ovs \<Rightarrow>
                       let bookedSet = set (map (\<lambda>(d, sl). slot_key d sl) bks);
                           overrideMp = Map_of_entries (map (\<lambda>(d, sl, io). (slot_key d sl, io)) ovs)
                       in Inr (map (availability_row bookedSet overrideMp) dates)))"

text \<open>
  The earlier revision: the same window, the same two queries and the same merge, over
  the slots A and B.
\<close>

definition slot_label_earlier :: "string \<Rightarrow> string" where
  "slot_label_earlier s =
     (case map_of SLOT_MAP_earlier s of Some (st, en) \<Rightarrow> st @ '' - '' @ en | None \<Rightarrow> [])"

definition availability_row_earlier ::
  "string set \<Rightarrow> (string \<Rightarrow> bool option) \<Rightarrow> string \<Rightarrow> view_row" where
  "availability_row_earlier bookedSet overrideMap date =
     \<lparr>v_date = date,
      v_slots = map (\<lambda>s.
         let key = slot_key date s;
             booked = (key \<in> bookedSet);
             opn = (case overrideMap key of None \<Rightarrow> \<not> booked | Some forced \<Rightarrow> forced \<and> \<not> booked)
         in (s, \<lparr>sv_open = opn, sv_booked = booked, sv_label = slot_label_earlier s\<rparr>))
        [''A'', ''B'']\<rparr>"

definition availability_earlier ::
  "int \<Rightarrow> string option \<Rightarrow> string option \<Rightarrow> db \<Rightarrow> sql_error + view_row list" where
  "availability_earlier now qstart qdays s =
     (let dates = availability_window now qstart qdays
      in if dates = [] then Inr []
         else case select_bookings_between s (hd dates) (last dates) of
                Inl e \<Rightarrow> Inl e
              | Inr bks \<Rightarrow>
                  (case select_overrides_between s (hd dates) (last dates) of
                     Inl e \<Rightarrow> Inl e
                   | Inr ovs \<Rightarrow>
                       let bookedSet = set (map (\<lambda>(d, sl). slot_key d sl) bks);
                           overrideMap = Map_of_entries (map (\<lambda>(d, sl, io). (slot_key d sl, io)) ovs)
                       in Inr (map (availability_row_earlier bookedSet overrideMap) dates)))"

subsection \<open>POST /book\<close>

text \<open>
  The fields of the request body, each a JSON string; \<open>None\<close> is a field that is missing.
  (Values of the other JSON types are left out.)
\<close>

record book_req =
  rq_full_name :: "string option"
  rq_phone :: "string option"
  rq_instagram :: "string option"
  rq_email :: "string option"
  rq_date :: "string option"
  rq_slot :: "string option"

definition text_of :: "string option \<Rightarrow> string" where
  "text_of q = (case q of None \<Rightarrow> [] | Some s \<Rightarrow> s)"

datatype book_response =
    Book_400_Datos_incompletos
  | Book_400_Fecha_fuera_de_ventana
  | Book_409 tx_error
  | Book_ok int int

text \<open>
  The body of the transaction of \<open>/book\<close>. The two revisions have the same body up to the
  \<open>INSERT\<close>: the later revision names the columns \<open>insert_columns\<close>, the earlier one the
  columns \<open>insert_columns_earlier\<close>. (The later revision binds \<open>email || null\<close> to the
  parameter of the column \<open>email\<close>.)
\<close>

definition book_tx ::
  "int \<Rightarrow> string list \<Rightarrow> string \<Rightarrow> string \<Rightarrow> string \<Rightarrow> string \<Rightarrow> string \<Rightarrow> db
     \<Rightarrow> (tx_error + booking) \<times> db" where
  "book_tx now columns full_name phone instagram date slot s =
     (case select_booking_for_update s date slot of
        Inl e \<Rightarrow> (Inl (Sql e), s)
      | Inr q \<Rightarrow>
          if length q > 0 then (Inl Ese_turno_ya_fue_reservado, s)
          else
            (case select_override s date slot of
               Inl e \<Rightarrow> (Inl (Sql e), s)
             | Inr ov \<Rightarrow>
                 if length ov > 0 \<and> \<not> o_is_open (hd ov) then (Inl Ese_turno_esta_cerrado, s)
                 else
                   (case insert_booking s now columns full_name phone instagram date slot of
                      (Inl e, s') \<Rightarrow> (Inl (Sql e), s')
                    | (Inr row, s') \<Rightarrow> (Inr row, s'))))"

definition book :: "int \<Rightarrow> book_req \<Rightarrow> db \<Rightarrow> book_response \<times> db" where
  "book now rq s =
     (if falsy (rq_full_name rq) \<or> falsy (rq_phone rq) \<or> falsy (rq_instagram rq)
         \<or> falsy (rq_date rq) \<or> text_of (rq_slot rq) \<notin> set SLOT_KEYS
      then (Book_400_Datos_incompletos, s)
      else
        let start = toISODate (todayCST now);
            valid = set (rollingWindow start (Some 14))
        in if text_of (rq_date rq) \<notin> valid then (Book_400_Fecha_fuera_de_ventana, s)
           else
             (case withTx (book_tx now insert_columns (text_of (rq_full_name rq))
                             (text_of (rq_phone rq)) (text_of (rq_instagram rq))
                             (text_of (rq_date rq)) (text_of (rq_slot rq))) s of
                (Inr result, s') \<Rightarrow> (Book_ok (b_id result) (b_created_at result), s')
              | (Inl e, s') \<Rightarrow> (Book_409 e, s')))"

text \<open>A call reaches the transaction when it passes the two checks before it.\<close>

definition reaches_tx :: "int \<Rightarrow> book_req \<Rightarrow> bool" where
  "reaches_tx now rq =
     (\<not> (falsy (rq_full_name rq) \<or> falsy (rq_phone rq) \<or> falsy (rq_instagram rq)
          \<or> falsy (rq_date rq) \<or> text_of (rq_slot rq) \<notin> set SLOT_KEYS)
      \<and> text_of (rq_date rq) \<in> set (rollingWindow (toISODate (todayCST now)) (Some 14)))"

text \<open>The earlier revision validates the slot against A and B.\<close>

definition book_earlier :: "int \<Rightarrow> book_req \<Rightarrow> db \<Rightarrow> book_response \<times> db" where
  "book_earlier now rq s =
     (if falsy (rq_full_name rq) \<or> falsy (rq_phone rq) \<or> falsy (rq_instagram rq)
         \<or> falsy (rq_date rq) \<or> text_of (rq_slot rq) \<notin> set [''A'', ''B'']
      then (Book_400_Datos_incompletos, s)
      else
        let start = toISODate (todayCST now);
            validDates = set (rollingWindow start (Some 14))
        in if text_of (rq_date rq) \<notin> validDates then (Book_400_Fecha_fuera_de_ventana, s)
           else
             (case withTx (book_tx now insert_columns_earlier (text_of (rq_full_name rq))
                             (text_of (rq_phone rq)) (text_of (rq_instagram rq))
                             (text_of (rq_date rq)) (text_of (rq_slot rq))) s of
                (Inr result, s') \<Rightarrow> (Book_ok (b_id result) (b_created_at result), s')
              | (Inl e, s') \<Rightarrow> (Book_409 e, s')))"

definition reaches_tx_earlier :: "int \<Rightarrow> book_req \<Rightarrow> bool" where
  "reaches_tx_earlier now rq =
     (\<not> (falsy (rq_full_name rq) \<or> falsy (rq_phone rq) \<or> falsy (rq_instagram rq)
          \<or> falsy (rq_date rq) \<or> text_of (rq_slot rq) \<notin> set [''A'', ''B''])
      \<and> text_of (rq_date rq) \<in> set (rollingWindow (toISODate (todayCST now)) (Some 14)))"

section \<open>The administrative endpoints\<close>

text \<open>The endpoints are modelled for a request that has passed \<open>requireAuth\<close>.\<close>

subsection \<open>POST /admin/api/slot\<close>

text \<open>
  The fields of the request body: \<open>sr_is_open\<close> is \<open>Some b\<close> for the JSON boolean \<open>b\<close> and
  \<open>None\<close> for a field that is missing or no boolean.
\<close>

record slot_req =
  sr_date :: "string option"
  sr_slot :: "string option"
  sr_is_open :: "bool option"

datatype slot_result = Opened bool | Closed bool "int option"

text \<open>
  The replies of the two revisions: the later one reports what the transaction did, or
  500; the earlier one answers a bare \<open>ok\<close>, and has no \<open>try\<close>, so that an error of its
  query leaves the request unanswered.
\<close>

datatype slot_response = Slot_400 | Slot_500 | Slot_ok slot_result | Slot_ok_bare | Slot_unanswered

definition admin_slot_tx :: "int \<Rightarrow> string \<Rightarrow> string \<Rightarrow> bool \<Rightarrow> db \<Rightarrow> (tx_error + slot_result) \<times> db" where
  "admin_slot_tx now date slot is_open s =
     (case upsert_override s now date slot is_open of
        (Inl e, s1) \<Rightarrow> (Inl (Sql e), s1)
      | (Inr u, s1) \<Rightarrow>
          if is_open then
            (case delete_booking_matching s1 date slot ADMIN_PHONE ADMIN_IG of
               (Inl e, s2) \<Rightarrow> (Inl (Sql e), s2)
             | (Inr n, s2) \<Rightarrow> (Inr (Opened (n > 0)), s2))
          else
            (case select_booking_for_update s1 date slot of
               Inl e \<Rightarrow> (Inl (Sql e), s1)
             | Inr ex \<Rightarrow>
                 if length ex = 0 then
                   (case insert_booking s1 now insert_columns ADMIN_NAME ADMIN_PHONE ADMIN_IG
                           date slot of
                      (Inl e, s2) \<Rightarrow> (Inl (Sql e), s2)
                    | (Inr row, s2) \<Rightarrow> (Inr (Closed True (Some (b_id row))), s2))
                 else (Inr (Closed False None), s1)))"

definition admin_slot :: "int \<Rightarrow> slot_req \<Rightarrow> db \<Rightarrow> slot_response \<times> db" where
  "admin_slot now rq s =
     (case sr_is_open rq of
        None \<Rightarrow> (Slot_400, s)
      | Some is_open \<Rightarrow>
          if falsy (sr_date rq) \<or> text_of (sr_slot rq) \<notin> set SLOT_KEYS then (Slot_400, s)
          else
            (case withTx (admin_slot_tx now (text_of (sr_date rq)) (text_of (sr_slot rq)) is_open) s of
               (Inr result, s') \<Rightarrow> (Slot_ok result, s')
             | (Inl e, s') \<Rightarrow> (Slot_500, s')))"

text \<open>The earlier revision: the upsert alone, outside a transaction.\<close>

definition admin_slot_earlier :: "int \<Rightarrow> slot_req \<Rightarrow> db \<Rightarrow> slot_response \<times> db" where
  "admin_slot_earlier now rq s =
     (case sr_is_open rq of
        None \<Rightarrow> (Slot_400, s)
      | Some is_open \<Rightarrow>
          if falsy (sr_date rq) \<or> text_of (sr_slot rq) \<notin> set [''A'', ''B''] then (Slot_400, s)
          else
            (case upsert_override s now (text_of (sr_date rq)) (text_of (sr_slot rq)) is_open of
               (Inr u, s') \<Rightarrow> (Slot_ok_bare, s')
             | (Inl e, s') \<Rightarrow> (Slot_unanswered, s')))"

subsection \<open>DELETE /admin/api/booking/:id\<close>

text \<open>
  The replies of the two revisions: an error of the query is answered with 500 by the
  later revision and leaves the request unanswered in the earlier one, which has no \<open>try\<close>.
\<close>

datatype cancel_response = Cancel_400 | Cancel_404 | Cancel_500 | Cancel_ok | Cancel_unanswered

text \<open>\<open>Number(req.params.id)\<close> is \<open>Some\<close> of an integer, or \<open>None\<close> when it is no integer.\<close>

definition cancel :: "int option \<Rightarrow> db \<Rightarrow> cancel_response \<times> db" where
  "cancel idn s =
     (case idn of
        None \<Rightarrow> (Cancel_400, s)
      | Some i \<Rightarrow>
          if i \<le> 0 then (Cancel_400, s)
          else
            (case delete_booking_by_id s i of
               (Inl e, s') \<Rightarrow> (Cancel_500, s')
             | (Inr n, s') \<Rightarrow> if n = 0 then (Cancel_404, s') else (Cancel_ok, s')))"

text \<open>The earlier revision reads the path parameter with \<open>parseInt\<close> and rejects NaN and 0.\<close>

definition cancel_earlier :: "string \<Rightarrow> db \<Rightarrow> cancel_response \<times> db" where
  "cancel_earlier idtext s =
     (case parseInt idtext of
        None \<Rightarrow> (Cancel_400, s)
      | Some i \<Rightarrow>
          if i = 0 then (Cancel_400, s)
          else
            (case delete_booking_by_id s i of
               (Inl e, s') \<Rightarrow> (Cancel_unanswered, s')
             | (Inr n, s') \<Rightarrow> if n = 0 then (Cancel_404, s') else (Cancel_ok, s')))"

section \<open>Reachable states and the constraints of the schema\<close>

text \<open>
  The states that the endpoints of the two revisions can produce, starting from the
  empty tables.
\<close>

inductive reachable :: "db \<Rightarrow> bool" where
  r_init: "reachable empty_db"
| r_book: "reachable s \<Longrightarrow> reachable (snd (book now rq s))"
| r_slot: "reachable s \<Longrightarrow> reachable (snd (admin_slot now sr s))"
| r_cancel: "reachable s \<Longrightarrow> reachable (snd (cancel idn s))"
| r_book_earlier: "reachable s \<Longrightarrow> reachable (snd (book_earlier now rq s))"
| r_slot_earlier: "reachable s \<Longrightarrow> reachable (snd (admin_slot_earlier now sr s))"
| r_cancel_earlier: "reachable s \<Longrightarrow> reachable (snd (cancel_earlier idtext s))"

text \<open>The \<open>CHECK\<close> and \<open>UNIQUE\<close> constraints of both tables, as a predicate on a state.\<close>

definition constraints_hold :: "db \<Rightarrow> bool" where
  "constraints_hold s =
     (list_all (\<lambda>b. slot_check (b_slot b)) (bookings s)
      \<and> list_all (\<lambda>ov. slot_check (o_slot ov)) (slot_overrides s)
      \<and> distinct (map (\<lambda>b. (b_date b, b_slot b)) (bookings s))
      \<and> distinct (map (\<lambda>ov. (o_date ov, o_slot ov)) (slot_overrides s)))"

section \<open>Notions used in the statements and proofs\<close>

text \<open>Both tables of one state are those of the other: what a rollback guarantees.\<close>

definition same_tables :: "db \<Rightarrow> db \<Rightarrow> bool" where
  "same_tables s s' = (bookings s' = bookings s \<and> slot_overrides s' = slot_overrides s)"

text \<open>The sequences start at 1 and never go back.\<close>

definition seqs_started :: "db \<Rightarrow> bool" where
  "seqs_started s = (1 \<le> bookings_id_seq s \<and> 1 \<le> slot_overrides_id_seq s)"

text \<open>The row an \<open>INSERT\<close> into \<open>bookings\<close> adds: the next identifier of the sequence, the time \<open>now\<close>.\<close>

definition new_booking ::
  "db \<Rightarrow> int \<Rightarrow> string \<Rightarrow> string \<Rightarrow> string \<Rightarrow> int \<Rightarrow> string \<Rightarrow> booking" where
  "new_booking s now fn ph ig d slot =
     \<lparr>b_id = bookings_id_seq s, b_full_name = fn, b_phone = ph, b_instagram = ig,
      b_date = d, b_slot = slot, b_created_at = now\<rparr>"

text \<open>The state after the upsert of the override for a day and a slot that the storage accepts.\<close>

definition set_override :: "db \<Rightarrow> int \<Rightarrow> int \<Rightarrow> string \<Rightarrow> bool \<Rightarrow> db" where
  "set_override s now d slot io =
     s\<lparr>slot_overrides_id_seq := slot_overrides_id_seq s + 1,
       slot_overrides :=
         (if \<exists>ov \<in> set (slot_overrides s). o_date ov = d \<and> o_slot ov = slot
          then map (\<lambda>ov. if o_date ov = d \<and> o_slot ov = slot then ov\<lparr>o_is_open := io\<rparr> else ov)
                 (slot_overrides s)
          else slot_overrides s @ [\<lparr>o_id = slot_overrides_id_seq s, o_date = d, o_slot = slot,
                                    o_is_open = io, o_created_at = now\<rparr>])\<rparr>"

text \<open>The day numbers of a window that starts at the valid day \<open>t\<close>: the weekdays among \<open>n\<close> consecutive days that are valid time values.\<close>

definition window_days :: "int \<Rightarrow> int \<Rightarrow> int list" where
  "window_days t n =
     filter (\<lambda>x. \<bar>x\<bar> \<le> 100000000 \<and> 1 \<le> WeekDay x \<and> WeekDay x \<le> 5) (map (\<lambda>i. t + i) [0..n - 1])"

text \<open>The set of keys that \<open>/availability\<close> builds from the bookings between the days \<open>l\<close> and \<open>h\<close>.\<close>

definition booked_keys :: "db \<Rightarrow> int \<Rightarrow> int \<Rightarrow> string set" where
  "booked_keys s l h =
     set (map (\<lambda>(d, sl). slot_key d sl)
            (map (\<lambda>b. (date_out (b_date b), b_slot b))
               (filter (\<lambda>b. b_date b \<ge> l \<and> b_date b \<le> h) (bookings s))))"

text \<open>The Map that \<open>/availability\<close> builds from the overrides between the days \<open>l\<close> and \<open>h\<close>.\<close>

definition override_map :: "db \<Rightarrow> int \<Rightarrow> int \<Rightarrow> string \<Rightarrow> bool option" where
  "override_map s l h =
     Map_of_entries (map (\<lambda>(d, sl, io). (slot_key d sl, io))
        (map (\<lambda>ov. (date_out (o_date ov), o_slot ov, o_is_open ov))
           (filter (\<lambda>ov. o_date ov \<ge> l \<and> o_date ov \<le> h) (slot_overrides s))))"

text \<open>The merge of the two revisions in one form: the slots of a row, for a list of slots and their labels.\<close>

definition merged_slots ::
  "string list \<Rightarrow> (string \<Rightarrow> string) \<Rightarrow> string set \<Rightarrow> (string \<Rightarrow> bool option) \<Rightarrow> string
     \<Rightarrow> (string \<times> slot_view) list" where
  "merged_slots order label bookedSet overrideMp date =
     map (\<lambda>s. (s, \<lparr>sv_open = (case overrideMp (slot_key date s) of
                                 None \<Rightarrow> slot_key date s \<notin> bookedSet
                               | Some f \<Rightarrow> f \<and> slot_key date s \<notin> bookedSet),
                    sv_booked = (slot_key date s \<in> bookedSet),
                    sv_label = label s\<rparr>)) order"

text \<open>What the specification asks of a row of the view for the day \<open>d\<close>, slot by slot: \<open>booked\<close> says whether a booking exists, \<open>open\<close> follows the override when there is one.\<close>

definition row_reflects :: "db \<Rightarrow> view_row \<Rightarrow> int \<Rightarrow> bool" where
  "row_reflects s row d =
     (\<forall>sl sv. (sl, sv) \<in> set (v_slots row) \<longrightarrow>
        (sv_booked sv \<longleftrightarrow> (\<exists>b \<in> set (bookings s). b_date b = d \<and> b_slot b = sl))
      \<and> (\<not> (\<exists>ov \<in> set (slot_overrides s). o_date ov = d \<and> o_slot ov = sl)
            \<longrightarrow> sv_open sv = (\<not> sv_booked sv))
      \<and> (\<forall>ov \<in> set (slot_overrides s). o_date ov = d \<and> o_slot ov = sl
            \<longrightarrow> sv_open sv = (o_is_open ov \<and> \<not> sv_booked sv))
      \<and> (sv_booked sv \<longrightarrow> \<not> sv_open sv))"

section \<open>Example requests and states\<close>

text \<open>A booking request for 2024-06-03 (a Monday) by a customer whose phone and instagram happen to be the sentinel values.\<close>

definition req_juan :: "string \<Rightarrow> book_req" where
  "req_juan slot =
     \<lparr>rq_full_name = Some ''Juan'', rq_phone = Some ''0'', rq_instagram = Some ''admin'',
      rq_email = None, rq_date = Some ''2024-06-03'', rq_slot = Some slot\<rparr>"

text \<open>A request to the slot endpoint for 2024-06-03.\<close>

definition req_slot :: "string \<Rightarrow> bool \<Rightarrow> slot_req" where
  "req_slot slot is_open =
     \<lparr>sr_date = Some ''2024-06-03'', sr_slot = Some slot, sr_is_open = Some is_open\<rparr>"

text \<open>The state after that customer booked slot A on the empty tables at 2024-06-03T00:00:00Z, through \<open>/book\<close> of the earlier revision.\<close>

definition db_juan_A :: db where
  "db_juan_A =
     \<lparr>bookings = [\<lparr>b_id = 1, b_full_name = ''Juan'', b_phone = ''0'', b_instagram = ''admin'',
                    b_date = 19877, b_slot = ''A'', b_created_at = 1717372800000\<rparr>],
       slot_overrides = [], bookings_id_seq = 2, slot_overrides_id_seq = 1\<rparr>"

text \<open>The state after that booking was cancelled.\<close>

definition db_after_cancel :: db where
  "db_after_cancel =
     \<lparr>bookings = [], slot_overrides = [], bookings_id_seq = 2, slot_overrides_id_seq = 1\<rparr>"

text \<open>The state after slot A of 2024-06-03 was reopened on \<open>db_juan_A\<close>.\<close>

definition db_reopened :: db where
  "db_reopened =
     \<lparr>bookings = [],
      slot_overrides = [\<lparr>o_id = 1, o_date = 19877, o_slot = ''A'', o_is_open = True,
                         o_created_at = 1717372800000\<rparr>],
      bookings_id_seq = 2, slot_overrides_id_seq = 2\<rparr>"

text \<open>The empty tables after \<open>n\<close> values of the sequence of \<open>slot_overrides\<close> were drawn.\<close>

definition db_drawn :: "int \<Rightarrow> db" where
  "db_drawn n =
     \<lparr>bookings = [], slot_overrides = [], bookings_id_seq = 1, slot_overrides_id_seq = 1 + n\<rparr>"

text \<open>A request to the slot endpoint to close slot A of 0999-12-30 (a Monday), and the state after the earlier revision stored it on the empty tables.\<close>

definition req_close_999 :: slot_req where
  "req_close_999 =
     \<lparr>sr_date = Some ''0999-12-30'', sr_slot = Some ''A'', sr_is_open = Some False\<rparr>"

definition db_closed_999 :: db where
  "db_closed_999 =
     \<lparr>bookings = [],
      slot_overrides = [\<lparr>o_id = 1, o_date = - 354287, o_slot = ''A'', o_is_open = False,
                         o_created_at = 1717372800000\<rparr>],
      bookings_id_seq = 1, slot_overrides_id_seq = 2\<rparr>"

text \<open>A slot of the view that is open and not booked.\<close>

definition slot_free :: "string \<Rightarrow> slot_view" where
  "slot_free label = \<lparr>sv_open = True, sv_booked = False, sv_label = label\<rparr>"

text \<open>A row with every slot open, in the later and in the earlier revision.\<close>

definition row_all_free :: "string \<Rightarrow> view_row" where
  "row_all_free date =
     \<lparr>v_date = date,
      v_slots = [(''C'', slot_free ''10:00 - 12:00''), (''A'', slot_free ''13:00 - 15:00''),
                 (''B'', slot_free ''15:00 - 17:00'')]\<rparr>"

definition row_all_free_earlier :: "string \<Rightarrow> view_row" where
  "row_all_free_earlier date =
     \<lparr>v_date = date,
      v_slots = [(''A'', slot_free ''13:00 - 15:00''), (''B'', slot_free ''15:00 - 17:00'')]\<rparr>"

section \<open>Properties of the calendar\<close>

lemma floor_bounds:
  fixes x k :: int
  assumes "0 < k"
  shows "k * (x div k) \<le> x" and "x < k * (x div k) + k"
proof -
  have e: "k * (x div k) + x mod k = x" by (rule mult_div_mod_eq)
  have "0 \<le> x mod k" using assms by simp
  with e show "k * (x div k) \<le> x" by linarith
  have "x mod k < k" using assms by simp
  with e show "x < k * (x div k) + k" by linarith
qed

lemma DayFromYear_estimate:
  "146097 * y - 287811697 < 400 * DayFromYear y"
  "400 * DayFromYear y < 146097 * y - 287810497"
proof -
  define a where "a = (y - 1969) div 4"
  define b where "b = (y - 1901) div 100"
  define c where "c = (y - 1601) div 400"
  have a: "4 * a \<le> y - 1969" "y - 1969 < 4 * a + 4"
    unfolding a_def using floor_bounds [of 4 "y - 1969"] by simp_all
  have b: "100 * b \<le> y - 1901" "y - 1901 < 100 * b + 100"
    unfolding b_def using floor_bounds [of 100 "y - 1901"] by simp_all
  have c: "400 * c \<le> y - 1601" "y - 1601 < 400 * c + 400"
    unfolding c_def using floor_bounds [of 400 "y - 1601"] by simp_all
  have d: "DayFromYear y = 365 * y - 719050 + a - b + c"
    by (simp add: DayFromYear_def a_def b_def c_def)
  have d4: "400 * DayFromYear y = 146000 * y - 287620000 + 400 * a - 400 * b + 400 * c"
    unfolding d by simp
  show "146097 * y - 287811697 < 400 * DayFromYear y"
    using a b c unfolding d4 by linarith
  show "400 * DayFromYear y < 146097 * y - 287810497"
    using a b c unfolding d4 by linarith
qed

lemma YearFromDay_bounds:
  "DayFromYear (YearFromDay d) \<le> d" "d < DayFromYear (YearFromDay d + 1)"
proof -
  define q where "q = (400 * d) div 146097"
  define e where "e = 1970 + q"
  have q: "146097 * q \<le> 400 * d" "400 * d < 146097 * q + 146097"
    unfolding q_def using floor_bounds [of 146097 "400 * d"] by simp_all
  have "400 * DayFromYear (e - 1) < 146097 * (e - 1) - 287810497"
    by (rule DayFromYear_estimate)
  hence "400 * DayFromYear (e - 1) < 146097 * q - 145504"
    by (simp add: e_def algebra_simps)
  hence lo: "DayFromYear (e - 1) \<le> d"
    using q by linarith
  have "146097 * (e + 2) - 287811697 < 400 * DayFromYear (e + 2)"
    by (rule DayFromYear_estimate)
  hence "146097 * q + 291587 < 400 * DayFromYear (e + 2)"
    by (simp add: e_def algebra_simps)
  hence hi: "d < DayFromYear (e + 2)"
    using q by linarith
  have y: "YearFromDay d =
      (if DayFromYear (e + 1) \<le> d then e + 1 else if DayFromYear e \<le> d then e else e - 1)"
    by (simp add: YearFromDay_def e_def q_def Let_def)
  show "DayFromYear (YearFromDay d) \<le> d"
    unfolding y using lo by simp
  have s: "e + 1 + 1 = e + 2" "e - 1 + 1 = e" by simp_all
  consider (A) "DayFromYear (e + 1) \<le> d"
    | (B) "\<not> DayFromYear (e + 1) \<le> d" "DayFromYear e \<le> d"
    | (C) "\<not> DayFromYear (e + 1) \<le> d" "\<not> DayFromYear e \<le> d" by blast
  then show "d < DayFromYear (YearFromDay d + 1)"
  proof cases
    case A
    hence "YearFromDay d = e + 1" using y by simp
    then show ?thesis by (simp only: s hi)
  next
    case B
    hence "YearFromDay d = e" using y by simp
    then show ?thesis using B by simp
  next
    case C
    hence "YearFromDay d = e - 1" using y by simp
    then show ?thesis using C by (simp only: s not_le)
  qed
qed

lemma div_succ:
  fixes x k :: int
  assumes "0 < k"
  shows "(x + 1) div k = x div k + (if (x + 1) mod k = 0 then 1 else 0)"
proof -
  have l: "k * (x div k) \<le> x" "x < k * (x div k) + k"
    using floor_bounds [OF assms, of x] by simp_all
  have m: "k * ((x + 1) div k) + (x + 1) mod k = x + 1" by (rule mult_div_mod_eq)
  show ?thesis
  proof (cases "(x + 1) mod k = 0")
    case True
    with m have "k * ((x + 1) div k) = x + 1" by simp
    hence "k * ((x + 1) div k) \<le> k * (x div k + 1)" "k * (x div k) < k * ((x + 1) div k)"
      using l by (simp_all add: algebra_simps)
    hence "(x + 1) div k \<le> x div k + 1" "x div k < (x + 1) div k"
      using assms by (simp_all add: mult_le_cancel_left mult_less_cancel_left)
    with True show ?thesis by simp
  next
    case False
    hence p: "0 < (x + 1) mod k" "(x + 1) mod k < k"
      using assms pos_mod_sign [of k "x + 1"] pos_mod_bound [of k "x + 1"] by linarith+
    with m have "k * ((x + 1) div k) \<le> x" "x < k * ((x + 1) div k) + k" by linarith+
    hence "k * ((x + 1) div k) < k * (x div k + 1)" "k * (x div k) < k * ((x + 1) div k + 1)"
      using l by (simp_all add: algebra_simps)
    hence "(x + 1) div k < x div k + 1" "x div k < (x + 1) div k + 1"
      using assms by (simp_all add: mult_less_cancel_left)
    with False show ?thesis by simp
  qed
qed

lemma mod_shift:
  fixes y k c :: int
  shows "(y - k * c + 1 - 1) mod k = y mod k"
proof -
  have "y - k * c + 1 - 1 = y + k * (- c)" by simp
  then show ?thesis by (simp only: mod_mult_self2)
qed

lemma DayFromYear_step: "DayFromYear (y + 1) = DayFromYear y + DaysInYear y"
proof -
  have a: "(y + 1 - 1969) div 4 = (y - 1969) div 4 + (if y mod 4 = 0 then 1 else 0)"
  proof -
    have "y - 1969 + 1 = y - 4 * 492 + 1 - 1" by simp
    hence "(y - 1969 + 1) mod 4 = y mod 4" by (simp only: mod_shift)
    moreover have "y + 1 - 1969 = y - 1969 + 1" by simp
    ultimately show ?thesis using div_succ [of 4 "y - 1969"] by simp
  qed
  have b: "(y + 1 - 1901) div 100 = (y - 1901) div 100 + (if y mod 100 = 0 then 1 else 0)"
  proof -
    have "y - 1901 + 1 = y - 100 * 19 + 1 - 1" by simp
    hence "(y - 1901 + 1) mod 100 = y mod 100" by (simp only: mod_shift)
    moreover have "y + 1 - 1901 = y - 1901 + 1" by simp
    ultimately show ?thesis using div_succ [of 100 "y - 1901"] by simp
  qed
  have c: "(y + 1 - 1601) div 400 = (y - 1601) div 400 + (if y mod 400 = 0 then 1 else 0)"
  proof -
    have "y - 1601 + 1 = y - 400 * 4 + 1 - 1" by simp
    hence "(y - 1601 + 1) mod 400 = y mod 400" by (simp only: mod_shift)
    moreover have "y + 1 - 1601 = y - 1601 + 1" by simp
    ultimately show ?thesis using div_succ [of 400 "y - 1601"] by simp
  qed
  have "y mod 400 mod 100 = y mod 100" by (rule mod_mod_cancel) simp
  hence i1: "y mod 400 = 0 \<Longrightarrow> y mod 100 = 0" by simp
  have "y mod 100 mod 4 = y mod 4" by (rule mod_mod_cancel) simp
  hence i2: "y mod 100 = 0 \<Longrightarrow> y mod 4 = 0" by simp
  show ?thesis
    unfolding DayFromYear_def DaysInYear_def a b c using i1 i2 by auto
qed


lemma DaysInYear_cases: "DaysInYear y = 365 + InLeapYear y" "InLeapYear y = 0 \<or> InLeapYear y = 1"
  by (auto simp: InLeapYear_def DaysInYear_def)

lemma DayWithinYear_bounds:
  "0 \<le> DayWithinYear d" "DayWithinYear d < 365 + InLeapYear (YearFromDay d)"
  using YearFromDay_bounds [of d] DayFromYear_step [of "YearFromDay d"] DaysInYear_cases(1) [of "YearFromDay d"]
  by (simp_all add: DayWithinYear_def)

lemma MonthFromDay_range: "0 \<le> MonthFromDay d \<and> MonthFromDay d \<le> 11"
  by (simp add: MonthFromDay_def Let_def)

lemma DateFromDay_range: "1 \<le> DateFromDay d \<and> DateFromDay d \<le> 31"
  using DayWithinYear_bounds [of d] DaysInYear_cases(2) [of "YearFromDay d"]
  by (auto simp: DateFromDay_def MonthFromDay_def MonthStart_def Let_def)

lemma MakeDay_fields:
  "MakeDay (YearFromDay d) (MonthFromDay d) n = d - DateFromDay d + n"
proof -
  have "MonthFromDay d div 12 = 0" "MonthFromDay d mod 12 = MonthFromDay d"
    using MonthFromDay_range [of d] by simp_all
  then show ?thesis
    by (simp add: MakeDay_def DateFromDay_def DayWithinYear_def Let_def)
qed

section \<open>Properties of the booking window\<close>

lemma scan_day_Some: "scan_day (Some t) i = TimeClip (t + i)"
  by (simp add: scan_day_def setUTCDate_def getUTCDate_def MakeDay_fields)

lemma scan_day_None: "scan_day None i = None"
  by (simp add: scan_day_def setUTCDate_def)

lemma DayFromYear_mono: "y \<le> z \<Longrightarrow> DayFromYear y \<le> DayFromYear z"
proof (induction z rule: int_ge_induct)
  case base
  show ?case by simp
next
  case (step i)
  have "0 < DaysInYear i" by (simp add: DaysInYear_def)
  with step DayFromYear_step [of i] show ?case by simp
qed

lemma YearFromDay_unique:
  assumes "DayFromYear y \<le> d" "d < DayFromYear (y + 1)"
  shows "YearFromDay d = y"
proof (rule antisym)
  show "YearFromDay d \<le> y"
  proof (rule ccontr)
    assume "\<not> YearFromDay d \<le> y"
    hence "y + 1 \<le> YearFromDay d" by simp
    hence "DayFromYear (y + 1) \<le> DayFromYear (YearFromDay d)" by (rule DayFromYear_mono)
    with YearFromDay_bounds(1) [of d] assms show False by simp
  qed
  show "y \<le> YearFromDay d"
  proof (rule ccontr)
    assume "\<not> y \<le> YearFromDay d"
    hence "YearFromDay d + 1 \<le> y" by simp
    hence "DayFromYear (YearFromDay d + 1) \<le> DayFromYear y" by (rule DayFromYear_mono)
    with YearFromDay_bounds(2) [of d] assms show False by simp
  qed
qed

lemma YearFromDay_mono: "a \<le> b \<Longrightarrow> YearFromDay a \<le> YearFromDay b"
proof (rule ccontr)
  assume ab: "a \<le> b" and "\<not> YearFromDay a \<le> YearFromDay b"
  hence "YearFromDay b + 1 \<le> YearFromDay a" by simp
  hence "DayFromYear (YearFromDay b + 1) \<le> DayFromYear (YearFromDay a)" by (rule DayFromYear_mono)
  with YearFromDay_bounds(2) [of b] YearFromDay_bounds(1) [of a] ab show False by simp
qed

lemma rollingWindow_loop_eq:
  "rollingWindow_loop start days i arr =
     arr @ map toISODate (filter isWeekday (map (scan_day start) [i..days - 1]))"
proof (induction start days i arr rule: rollingWindow_loop.induct)
  case (1 start days i arr)
  show ?case
  proof (cases "i < days")
    case True
    hence u: "[i..days - 1] = i # [i + 1..days - 1]" by (simp add: upto_rec1)
    show ?thesis
      using True "1.IH" [OF True refl]
      by (subst rollingWindow_loop.simps) (simp add: u Let_def)
  next
    case False
    then show ?thesis
      by (subst rollingWindow_loop.simps) simp
  qed
qed

lemma rollingWindow_eq:
  "rollingWindow startStr (Some n) =
     map toISODate (filter isWeekday (raw_scan (Date_parse (startStr @ ''T00:00:00Z'')) n))"
  by (simp add: rollingWindow_def raw_scan_def rollingWindow_loop_eq)

lemma rollingWindow_NaN: "rollingWindow startStr None = []"
  by (simp add: rollingWindow_def)

lemma isWeekday_None: "\<not> isWeekday None"
  by (simp add: isWeekday_def getUTCDay_def)

lemma rollingWindow_invalid:
  "Date_parse (startStr @ ''T00:00:00Z'') = None \<Longrightarrow> rollingWindow startStr days = []"
  by (cases days) (simp_all add: rollingWindow_NaN rollingWindow_eq raw_scan_def scan_day_None isWeekday_None)

lemma length_raw_scan: "length (raw_scan start n) = nat n"
  by (simp add: raw_scan_def)

lemma raw_scan_nth:
  assumes "0 \<le> i" "i < n"
  shows "raw_scan (Some t) n ! nat i = TimeClip (t + i)"
  using assms by (simp add: raw_scan_def scan_day_Some)

lemma eval_window_5:
  "rollingWindow ''2024-06-03'' (Some 5) =
     [''2024-06-03'', ''2024-06-04'', ''2024-06-05'', ''2024-06-06'', ''2024-06-07'']"
  by code_simp

lemma eval_parse_start: "Date_parse (''2024-06-03'' @ ''T00:00:00Z'') = Some 19877"
  by code_simp

text \<open>
  Claim C5. For every start date and every window length, the output of \<open>rollingWindow\<close>
  is the raw scan of \<open>n\<close> consecutive days from the start date, filtered to the days
  that are weekdays (Monday to Friday, week day 1 to 5) and printed in order: it is a
  subsequence of the printed scan, each of its entries is a weekday of the scan, the scan
  has \<open>n\<close> entries, and entry \<open>i\<close> is day \<open>t + i\<close> for a valid start \<open>t\<close>. For the start
  2024-06-03 and 5 days the output is the five dates from Monday to Friday.
\<close>

theorem rollingWindow_weekdays_in_order:
  "rollingWindow startStr (Some n) =
      map toISODate (filter isWeekday (raw_scan (Date_parse (startStr @ ''T00:00:00Z'')) n))
   \<and> subseq (rollingWindow startStr (Some n))
        (map toISODate (raw_scan (Date_parse (startStr @ ''T00:00:00Z'')) n))
   \<and> (\<forall>s \<in> set (rollingWindow startStr (Some n)).
         \<exists>x. Some x \<in> set (raw_scan (Date_parse (startStr @ ''T00:00:00Z'')) n)
            \<and> 1 \<le> WeekDay x \<and> WeekDay x \<le> 5 \<and> s = toISODate (Some x))
   \<and> length (raw_scan (Date_parse (startStr @ ''T00:00:00Z'')) n) = nat n
   \<and> (\<forall>t i. Date_parse (startStr @ ''T00:00:00Z'') = Some t \<and> 0 \<le> i \<and> i < n
         \<longrightarrow> raw_scan (Date_parse (startStr @ ''T00:00:00Z'')) n ! nat i = TimeClip (t + i))
   \<and> rollingWindow ''2024-06-03'' (Some 5) =
        [''2024-06-03'', ''2024-06-04'', ''2024-06-05'', ''2024-06-06'', ''2024-06-07'']"
proof -
  let ?scan = "raw_scan (Date_parse (startStr @ ''T00:00:00Z'')) n"
  have a: "rollingWindow startStr (Some n) = map toISODate (filter isWeekday ?scan)"
    by (rule rollingWindow_eq)
  have b: "subseq (rollingWindow startStr (Some n)) (map toISODate ?scan)"
    unfolding a by (intro subseq_map subseq_filter_left)
  have c: "\<forall>s \<in> set (rollingWindow startStr (Some n)).
         \<exists>x. Some x \<in> set ?scan \<and> 1 \<le> WeekDay x \<and> WeekDay x \<le> 5 \<and> s = toISODate (Some x)"
  proof
    fix s assume "s \<in> set (rollingWindow startStr (Some n))"
    then obtain d where d: "d \<in> set ?scan" "isWeekday d" "s = toISODate d"
      unfolding a by auto
    from d(2) obtain x where x: "d = Some x"
      by (cases d) (simp_all add: isWeekday_None)
    with d show "\<exists>x. Some x \<in> set ?scan \<and> 1 \<le> WeekDay x \<and> WeekDay x \<le> 5 \<and> s = toISODate (Some x)"
      by (auto simp: isWeekday_def getUTCDay_def)
  qed
  have e: "\<forall>t i. Date_parse (startStr @ ''T00:00:00Z'') = Some t \<and> 0 \<le> i \<and> i < n
         \<longrightarrow> ?scan ! nat i = TimeClip (t + i)"
    by (auto simp: raw_scan_nth)
  show ?thesis
    using a b c e length_raw_scan [of "Date_parse (startStr @ ''T00:00:00Z'')" n] eval_window_5
    by blast
qed

theorem rollingWindow_weekdays_in_order_witness:
  "subseq [''2024-06-03'', ''2024-06-04'', ''2024-06-05'', ''2024-06-06'', ''2024-06-07'']
      (map toISODate (raw_scan (Some 19877) 5))
   \<and> (\<exists>x. Some x \<in> set (raw_scan (Some 19877) 5) \<and> 1 \<le> WeekDay x \<and> WeekDay x \<le> 5
          \<and> ''2024-06-03'' = toISODate (Some x))
   \<and> raw_scan (Some 19877) 5 ! nat 0 = TimeClip (19877 + 0)"
proof -
  note w = rollingWindow_weekdays_in_order [of "''2024-06-03''" 5,
      unfolded eval_parse_start eval_window_5]
  from w have "subseq [''2024-06-03'', ''2024-06-04'', ''2024-06-05'', ''2024-06-06'', ''2024-06-07'']
      (map toISODate (raw_scan (Some 19877) 5))" by blast
  moreover from w have "\<exists>x. Some x \<in> set (raw_scan (Some 19877) 5) \<and> 1 \<le> WeekDay x
      \<and> WeekDay x \<le> 5 \<and> ''2024-06-03'' = toISODate (Some x)" by simp
  moreover from w have "(0::int) \<le> 0 \<and> (0::int) < 5
      \<longrightarrow> raw_scan (Some 19877) 5 ! nat 0 = TimeClip (19877 + 0)" by blast
  hence "raw_scan (Some 19877) 5 ! nat 0 = TimeClip (19877 + 0)" by simp
  ultimately show ?thesis by blast
qed

lemma eval_window_tomorrow: "availability_window 1717372800000 (Some ''tomorrow'') None = []"
  by code_simp

lemma eval_today: "toISODate (todayCST 1717372800000) = ''2024-06-03''"
  by code_simp

lemma eval_window_14:
  "rollingWindow ''2024-06-03'' (Some 14) =
     [''2024-06-03'', ''2024-06-04'', ''2024-06-05'', ''2024-06-06'', ''2024-06-07'',
      ''2024-06-10'', ''2024-06-11'', ''2024-06-12'', ''2024-06-13'', ''2024-06-14'']"
  by code_simp

lemma eval_parseInt_14: "parseInt ''14'' = Some 14"
  by code_simp

lemma eval_window_today:
  "availability_window 1717372800000 None None =
     [''2024-06-03'', ''2024-06-04'', ''2024-06-05'', ''2024-06-06'', ''2024-06-07'',
      ''2024-06-10'', ''2024-06-11'', ''2024-06-12'', ''2024-06-13'', ''2024-06-14'']"
  by (simp add: availability_window_def or_default_def eval_today eval_parseInt_14 Math_min_def
      eval_window_14)

lemma eval_parse_tomorrow: "Date_parse ''tomorrowT00:00:00Z'' = None"
  by code_simp

lemma eval_window_empty_days:
  "availability_window 1717372800000 None (Some '''') =
     [''2024-06-03'', ''2024-06-04'', ''2024-06-05'', ''2024-06-06'', ''2024-06-07'',
      ''2024-06-10'', ''2024-06-11'', ''2024-06-12'', ''2024-06-13'', ''2024-06-14'']"
  by (simp add: availability_window_def or_default_def eval_today eval_parseInt_14 Math_min_def
      eval_window_14)

lemma eval_parseInt_empty: "parseInt '''' = None"
  by code_simp

lemma eval_parseInt_abc: "parseInt ''abc'' = None"
  by code_simp

lemma availability_empty_window:
  "availability_window now qstart qdays = [] \<Longrightarrow> availability now qstart qdays s = Inr []"
  by (simp add: availability_def)

text \<open>
  The start string \<open>tomorrow\<close> is no date: the window is empty, and differs from the window
  that starts today.
\<close>

theorem malformed_start_counterexample:
  "Date_parse ''tomorrowT00:00:00Z'' = None
   \<and> availability_window 1717372800000 (Some ''tomorrow'') None = []
   \<and> availability_window 1717372800000 (Some ''tomorrow'') None
       \<noteq> availability_window 1717372800000 None None"
  by (simp add: eval_window_tomorrow eval_window_today eval_parse_tomorrow)

text \<open>
  Claim C8, as amended. \<open>rollingWindow\<close> raises no error. The start of the window
  falls back to today only when the \<open>start\<close> parameter is absent or empty. A start
  string that is present but gives an Invalid Date is used as it is: no day of the scan
  is a weekday, the window is empty and the endpoint answers with the empty array.
\<close>

theorem start_defaults_only_when_absent:
  "(falsy qstart \<longrightarrow>
      availability_window now qstart qdays =
        rollingWindow (toISODate (todayCST now)) (Math_min (parseInt (or_default qdays ''14'')) 31))
   \<and> (Date_parse (startStr @ ''T00:00:00Z'') = None \<longrightarrow> rollingWindow startStr days = [])
   \<and> (\<not> falsy qstart \<and> Date_parse (text_of qstart @ ''T00:00:00Z'') = None \<longrightarrow>
        availability_window now qstart qdays = [] \<and> availability now qstart qdays s = Inr [])"
proof -
  have a: "falsy qstart \<longrightarrow>
      availability_window now qstart qdays =
        rollingWindow (toISODate (todayCST now)) (Math_min (parseInt (or_default qdays ''14'')) 31)"
    by (auto simp: falsy_def availability_window_def or_default_def split: option.splits)
  have b: "Date_parse (startStr @ ''T00:00:00Z'') = None \<longrightarrow> rollingWindow startStr days = []"
    by (simp add: rollingWindow_invalid)
  have c: "\<not> falsy qstart \<and> Date_parse (text_of qstart @ ''T00:00:00Z'') = None \<longrightarrow>
        availability_window now qstart qdays = [] \<and> availability now qstart qdays s = Inr []"
  proof
    assume h: "\<not> falsy qstart \<and> Date_parse (text_of qstart @ ''T00:00:00Z'') = None"
    then obtain st where st: "qstart = Some st" "st \<noteq> []"
      by (cases qstart) (auto simp: falsy_def)
    with h have "availability_window now qstart qdays = []"
      by (simp add: availability_window_def or_default_def text_of_def rollingWindow_invalid)
    then show "availability_window now qstart qdays = [] \<and> availability now qstart qdays s = Inr []"
      by (simp add: availability_empty_window)
  qed
  from a b c show ?thesis by blast
qed

theorem start_defaults_only_when_absent_witness:
  "availability_window 1717372800000 None None =
      rollingWindow (toISODate (todayCST 1717372800000)) (Math_min (parseInt (or_default None ''14'')) 31)
   \<and> rollingWindow ''tomorrow'' (Some 14) = []
   \<and> availability 1717372800000 (Some ''tomorrow'') None empty_db = Inr []"
proof -
  note w = start_defaults_only_when_absent [of None 1717372800000 None "''tomorrow''" "Some 14" empty_db]
  note v = start_defaults_only_when_absent [of "Some ''tomorrow''" 1717372800000 None "''tomorrow''" "Some 14" empty_db]
  have f: "falsy None" "\<not> falsy (Some ''tomorrow'')" "text_of (Some ''tomorrow'') = ''tomorrow''"
    by (simp_all add: falsy_def text_of_def)
  from w f have "availability_window 1717372800000 None None =
      rollingWindow (toISODate (todayCST 1717372800000)) (Math_min (parseInt (or_default None ''14'')) 31)"
    by blast
  moreover from w eval_parse_tomorrow have "rollingWindow ''tomorrow'' (Some 14) = []" by simp
  moreover from v f eval_parse_tomorrow
  have "availability 1717372800000 (Some ''tomorrow'') None empty_db = Inr []" by simp
  ultimately show ?thesis by blast
qed

text \<open>
  The empty string is not read as an integer by \<open>parseInt\<close>, yet a request with an empty
  \<open>days\<close> parameter gets the window of 14 days.
\<close>

theorem empty_days_counterexample:
  "parseInt '''' = None
   \<and> availability_window 1717372800000 None (Some '''') \<noteq> []"
  by (simp add: eval_parseInt_empty eval_window_empty_days)

text \<open>
  Claim C10, as amended. For every request whose \<open>days\<close> parameter is a non-empty string
  that \<open>parseInt\<close> does not read as an integer, the day count is NaN, the loop of
  \<open>rollingWindow\<close> does not run, and the endpoint answers with the empty array without
  reading the database. (An empty \<open>days\<close> parameter is replaced by \<open>'14'\<close> first.)
\<close>

theorem unparsable_days_empty_array:
  assumes "qdays = Some d" and "d \<noteq> []" and "parseInt d = None"
  shows "Math_min (parseInt (or_default qdays ''14'')) 31 = None
         \<and> rollingWindow (or_default qstart (toISODate (todayCST now))) None = []
         \<and> availability_window now qstart qdays = []
         \<and> availability now qstart qdays s = Inr []"
proof -
  have n: "Math_min (parseInt (or_default qdays ''14'')) 31 = None"
    using assms by (simp add: or_default_def Math_min_def)
  hence w: "availability_window now qstart qdays = []"
    by (simp add: availability_window_def rollingWindow_NaN)
  show ?thesis
    using n w by (simp add: rollingWindow_NaN availability_empty_window)
qed

theorem unparsable_days_empty_array_witness:
  "Math_min (parseInt (or_default (Some ''abc'') ''14'')) 31 = None
   \<and> availability 1717372800000 None (Some ''abc'') empty_db = Inr []"
  using unparsable_days_empty_array [of "Some ''abc''" "''abc''" None 1717372800000 empty_db]
    eval_parseInt_abc
  by simp

section \<open>Properties of the date texts\<close>

lemma of_char_digit_char: "k < 10 \<Longrightarrow> (of_char (digit_char k) :: nat) = 48 + k"
  by (simp add: digit_char_def)

lemma is_digit_digit_char: "k < 10 \<Longrightarrow> is_digit (digit_char k)"
  by (simp add: is_digit_def of_char_digit_char)

lemma digits_val_snoc: "digits_val (xs @ [c]) = 10 * digits_val xs + (of_char c - 48)"
  by (simp add: digits_val_def)

lemma show_nat_digits: "list_all is_digit (show_nat n)"
proof (induction n rule: show_nat.induct)
  case (1 n)
  show ?case
  proof (cases "n < 10")
    case True
    then show ?thesis by (subst show_nat.simps) (simp add: is_digit_digit_char)
  next
    case False
    with "1.IH" show ?thesis by (subst show_nat.simps) (simp add: is_digit_digit_char)
  qed
qed

lemma digits_val_show_nat: "digits_val (show_nat n) = n"
proof (induction n rule: show_nat.induct)
  case (1 n)
  show ?case
  proof (cases "n < 10")
    case True
    then show ?thesis
      by (subst show_nat.simps) (simp add: digits_val_def of_char_digit_char)
  next
    case False
    with "1.IH" show ?thesis
      by (subst show_nat.simps) (simp add: digits_val_snoc of_char_digit_char)
  qed
qed

lemma length_show_nat_1: "n < 10 \<Longrightarrow> length (show_nat n) = 1"
  by (subst show_nat.simps) simp

lemma length_show_nat_step: "10 \<le> n \<Longrightarrow> length (show_nat n) = Suc (length (show_nat (n div 10)))"
  by (subst show_nat.simps) simp

lemma length_show_nat_2: "10 \<le> n \<Longrightarrow> n < 100 \<Longrightarrow> length (show_nat n) = 2"
  by (simp add: length_show_nat_step length_show_nat_1)

lemma length_show_nat_3:
  assumes "100 \<le> n" "n < 1000"
  shows "length (show_nat n) = 3"
proof -
  have "10 \<le> n div 10" "n div 10 < 100" "10 \<le> n" using assms by simp_all
  then show ?thesis
    using length_show_nat_step [of n] length_show_nat_2 [of "n div 10"] by simp
qed

lemma length_show_nat_4:
  assumes "1000 \<le> n" "n < 10000"
  shows "length (show_nat n) = 4"
proof -
  have "100 \<le> n div 10" "n div 10 < 1000" "10 \<le> n" using assms by simp_all
  then show ?thesis
    using length_show_nat_step [of n] length_show_nat_3 [of "n div 10"] by simp
qed

lemma length_show_nat_pos: "1 \<le> length (show_nat n)"
  by (subst show_nat.simps) simp

lemma length_show_nat_5: "10000 \<le> n \<Longrightarrow> 5 \<le> length (show_nat n)"
proof -
  assume n: "10000 \<le> n"
  have "1 \<le> length (show_nat (n div 10 div 10 div 10 div 10))" by (rule length_show_nat_pos)
  moreover have "10 \<le> n" "10 \<le> n div 10" "10 \<le> n div 10 div 10" "10 \<le> n div 10 div 10 div 10"
    using n by simp_all
  ultimately show ?thesis by (simp add: length_show_nat_step)
qed

lemma length_show_nat_4_iff: "length (show_nat n) = 4 \<longleftrightarrow> 1000 \<le> n \<and> n < 10000"
proof -
  consider "n < 10" | "10 \<le> n" "n < 100" | "100 \<le> n" "n < 1000" | "1000 \<le> n" "n < 10000" | "10000 \<le> n"
    by linarith
  then show ?thesis
  proof cases
    case 5
    with length_show_nat_5 [of n] show ?thesis by simp
  qed (simp_all add: length_show_nat_1 length_show_nat_2 length_show_nat_3 length_show_nat_4)
qed

lemma digits_val_bound: "list_all is_digit s \<Longrightarrow> digits_val s < 10 ^ length s"
proof (induction s rule: rev_induct)
  case Nil
  show ?case by (simp add: digits_val_def)
next
  case (snoc c s)
  hence "digits_val s < 10 ^ length s" "(of_char c :: nat) \<le> 57" by (simp_all add: is_digit_def)
  hence "10 * digits_val s + (of_char c - 48) < 10 * 10 ^ length s" by linarith
  then show ?case by (simp add: digits_val_snoc)
qed

text \<open>Two digits, padded.\<close>

lemma pad2:
  assumes "k < 100"
  shows "length (padStart 2 (CHR ''0'') (show_nat k)) = 2"
    and "list_all is_digit (padStart 2 (CHR ''0'') (show_nat k))"
    and "digits_val (padStart 2 (CHR ''0'') (show_nat k)) = k"
proof -
  have z: "is_digit CHR ''0''" by (simp add: is_digit_def)
  have p: "padStart 2 (CHR ''0'') (show_nat k) =
      (if k < 10 then CHR ''0'' # show_nat k else show_nat k)"
    using assms by (auto simp: padStart_def length_show_nat_1 length_show_nat_2 not_less)
  have l: "length (show_nat k) = (if k < 10 then 1 else 2)"
    using assms by (simp add: length_show_nat_1 length_show_nat_2 not_less)
  show "length (padStart 2 (CHR ''0'') (show_nat k)) = 2"
    unfolding p using l by simp
  show "list_all is_digit (padStart 2 (CHR ''0'') (show_nat k))"
    unfolding p using z show_nat_digits [of k] by simp
  have "digits_val (CHR ''0'' # show_nat k) = digits_val (show_nat k)"
    by (simp add: digits_val_def)
  then show "digits_val (padStart 2 (CHR ''0'') (show_nat k)) = k"
    unfolding p by (simp add: digits_val_show_nat)
qed

lemma iso_layout_T:
  assumes "length a = 4" "length b = 2" "length c = 2"
  shows "length ((a @ ''-'' @ b @ ''-'' @ c) @ t) = 10 + length t"
    and "drop 10 ((a @ ''-'' @ b @ ''-'' @ c) @ t) = t"
    and "((a @ ''-'' @ b @ ''-'' @ c) @ t) ! 4 = CHR ''-''"
    and "((a @ ''-'' @ b @ ''-'' @ c) @ t) ! 7 = CHR ''-''"
    and "take 4 ((a @ ''-'' @ b @ ''-'' @ c) @ t) = a"
    and "take 2 (drop 5 ((a @ ''-'' @ b @ ''-'' @ c) @ t)) = b"
    and "take 2 (drop 8 ((a @ ''-'' @ b @ ''-'' @ c) @ t)) = c"
  using assms by (simp_all add: nth_append)

text \<open>The printed fields of a day.\<close>

lemma month_day_text:
  "length (padStart 2 (CHR ''0'') (show_nat (nat (MonthFromDay x + 1)))) = 2"
  "list_all is_digit (padStart 2 (CHR ''0'') (show_nat (nat (MonthFromDay x + 1))))"
  "int (digits_val (padStart 2 (CHR ''0'') (show_nat (nat (MonthFromDay x + 1))))) = MonthFromDay x + 1"
  "length (padStart 2 (CHR ''0'') (show_nat (nat (DateFromDay x)))) = 2"
  "list_all is_digit (padStart 2 (CHR ''0'') (show_nat (nat (DateFromDay x))))"
  "int (digits_val (padStart 2 (CHR ''0'') (show_nat (nat (DateFromDay x))))) = DateFromDay x"
proof -
  have m: "nat (MonthFromDay x + 1) < 100" "0 \<le> MonthFromDay x + 1"
    using MonthFromDay_range [of x] by linarith+
  have d: "nat (DateFromDay x) < 100" "0 \<le> DateFromDay x"
    using DateFromDay_range [of x] by linarith+
  show "length (padStart 2 (CHR ''0'') (show_nat (nat (MonthFromDay x + 1)))) = 2"
    "list_all is_digit (padStart 2 (CHR ''0'') (show_nat (nat (MonthFromDay x + 1))))"
    "length (padStart 2 (CHR ''0'') (show_nat (nat (DateFromDay x)))) = 2"
    "list_all is_digit (padStart 2 (CHR ''0'') (show_nat (nat (DateFromDay x))))"
    using m d by (simp_all only: pad2)
  show "int (digits_val (padStart 2 (CHR ''0'') (show_nat (nat (MonthFromDay x + 1))))) = MonthFromDay x + 1"
    using m by (simp only: pad2 int_nat_eq if_True)
  show "int (digits_val (padStart 2 (CHR ''0'') (show_nat (nat (DateFromDay x))))) = DateFromDay x"
    using d by (simp only: pad2 int_nat_eq if_True)
qed

lemma toISODate_Some:
  "toISODate (Some x) =
     Number_toString (Some (YearFromDay x)) @ ''-''
       @ padStart 2 (CHR ''0'') (show_nat (nat (MonthFromDay x + 1))) @ ''-''
       @ padStart 2 (CHR ''0'') (show_nat (nat (DateFromDay x)))"
proof -
  have "0 \<le> MonthFromDay x + 1" "0 \<le> DateFromDay x"
    using MonthFromDay_range [of x] DateFromDay_range [of x] by simp_all
  then show ?thesis
    by (simp add: toISODate_def getUTCFullYear_def getUTCMonth_def getUTCDate_def
        Number_toString_def Let_def)
qed

text \<open>The length of a printed number, from below.\<close>

lemma length_show_nat_ge3: "100 \<le> n \<Longrightarrow> 3 \<le> length (show_nat n)"
proof -
  assume n: "100 \<le> n"
  have "1 \<le> length (show_nat (n div 10 div 10))" by (rule length_show_nat_pos)
  moreover have "10 \<le> n" "10 \<le> n div 10" using n by simp_all
  ultimately show ?thesis by (simp add: length_show_nat_step)
qed

lemma length_show_nat_ge4: "1000 \<le> n \<Longrightarrow> 4 \<le> length (show_nat n)"
proof -
  assume n: "1000 \<le> n"
  have "1 \<le> length (show_nat (n div 10 div 10 div 10))" by (rule length_show_nat_pos)
  moreover have "10 \<le> n" "10 \<le> n div 10" "10 \<le> n div 10 div 10" using n by simp_all
  ultimately show ?thesis by (simp add: length_show_nat_step)
qed

lemma length_show_nat_ge3_iff: "3 \<le> length (show_nat n) \<longleftrightarrow> 100 \<le> n"
proof -
  consider "n < 10" | "10 \<le> n" "n < 100" | "100 \<le> n" by linarith
  then show ?thesis
  proof cases
    case 3
    with length_show_nat_ge3 [of n] show ?thesis by simp
  qed (simp_all add: length_show_nat_1 length_show_nat_2)
qed

text \<open>The fields of a date text.\<close>

lemma fields_sep: "c \<notin> set a \<Longrightarrow> text_fields c (a @ c # r) = a # text_fields c r"
  by (induction a) auto

lemma fields_no_sep: "c \<notin> set a \<Longrightarrow> text_fields c a = [a]"
  by (induction a) auto

lemma digits_no_dash: "list_all is_digit a \<Longrightarrow> CHR ''-'' \<notin> set a"
  by (auto simp: list_all_iff is_digit_def)

lemma fields_date:
  assumes "list_all is_digit a" "list_all is_digit b" "list_all is_digit c"
  shows "text_fields (CHR ''-'') (a @ ''-'' @ b @ ''-'' @ c) = [a, b, c]"
  using assms
  by (simp add: fields_sep fields_no_sep digits_no_dash)

lemma fields_date_minus:
  assumes "list_all is_digit a" "list_all is_digit b" "list_all is_digit c"
  shows "text_fields (CHR ''-'') ((CHR ''-'' # a) @ ''-'' @ b @ ''-'' @ c) = [[], a, b, c]"
  using fields_date [OF assms] by simp

text \<open>Years 1000 and later: the text of the server and the text of the database agree.\<close>

lemma toISODate_date_out:
  assumes "1000 \<le> YearFromDay x"
  shows "toISODate (Some x) = date_out x"
proof -
  have "4 \<le> length (show_nat (nat (YearFromDay x)))"
    using assms by (intro length_show_nat_ge4) simp
  then show ?thesis
    using assms by (simp add: toISODate_Some date_out_def Number_toString_def padStart_def Let_def)
qed

text \<open>Before the year 1000 the server prints a shorter text than the database.\<close>

lemma length_toISODate_short:
  assumes "0 \<le> YearFromDay x" "YearFromDay x < 1000"
  shows "length (toISODate (Some x)) \<le> 9"
proof -
  have "length (show_nat (nat (YearFromDay x))) \<le> 3"
  proof -
    consider "nat (YearFromDay x) < 10" | "10 \<le> nat (YearFromDay x)" "nat (YearFromDay x) < 100"
      | "100 \<le> nat (YearFromDay x)" "nat (YearFromDay x) < 1000"
      using assms by linarith
    then show ?thesis
      by cases (simp_all add: length_show_nat_1 length_show_nat_2 length_show_nat_3)
  qed
  then show ?thesis
    using assms by (simp add: toISODate_Some Number_toString_def month_day_text)
qed

lemma length_padStart: "n \<le> length (padStart n c s)"
  by (simp add: padStart_def)

lemma length_date_out: "10 \<le> length (date_out x)"
  using length_padStart [of 4 "CHR ''0''" "show_nat (nat (YearFromDay x))"]
    length_padStart [of 4 "CHR ''0''" "show_nat (nat (1 - YearFromDay x))"]
  by (simp add: date_out_def Let_def month_day_text)

lemma date_in_fields:
  assumes "3 \<le> length a" "list_all is_digit a" "1 \<le> YearFromDay x" "YearFromDay x \<le> 5874897"
    and "int (digits_val a) = YearFromDay x"
  shows "date_in (a @ ''-'' @ padStart 2 (CHR ''0'') (show_nat (nat (MonthFromDay x + 1))) @ ''-''
            @ padStart 2 (CHR ''0'') (show_nat (nat (DateFromDay x)))) = Some x"
proof -
  let ?b = "padStart 2 (CHR ''0'') (show_nat (nat (MonthFromDay x + 1)))"
  let ?c = "padStart 2 (CHR ''0'') (show_nat (nat (DateFromDay x)))"
  note f = fields_date [OF assms(2) month_day_text(2) [of x] month_day_text(5) [of x]]
  have mk: "MakeDay (YearFromDay x) (MonthFromDay x + 1 - 1) (DateFromDay x) = x"
    by (simp add: MakeDay_fields)
  show ?thesis
    unfolding date_in_def f Let_def
    using assms month_day_text [of x] mk by simp
qed

lemma date_in_toISODate:
  assumes "100 \<le> YearFromDay x" "YearFromDay x \<le> 5874897"
  shows "date_in (toISODate (Some x)) = Some x"
proof -
  have n: "Number_toString (Some (YearFromDay x)) = show_nat (nat (YearFromDay x))"
    using assms by (simp add: Number_toString_def)
  have "3 \<le> length (show_nat (nat (YearFromDay x)))"
    using assms by (intro length_show_nat_ge3) simp
  moreover have "int (digits_val (show_nat (nat (YearFromDay x)))) = YearFromDay x"
    using assms by (simp add: digits_val_show_nat)
  moreover have "1 \<le> YearFromDay x" using assms by simp
  ultimately show ?thesis
    unfolding toISODate_Some n
    using assms(2) by (intro date_in_fields show_nat_digits)
qed

lemma digits_val_zeros: "digits_val (replicate k (CHR ''0'') @ t) = digits_val t"
  by (induction k) (simp_all add: digits_val_def)

lemma date_in_date_out:
  assumes "1 \<le> YearFromDay x" "YearFromDay x \<le> 5874897"
  shows "date_in (date_out x) = Some x"
proof -
  let ?s = "show_nat (nat (YearFromDay x))"
  have z: "is_digit CHR ''0''" by (simp add: is_digit_def)
  have len: "3 \<le> length (padStart 4 (CHR ''0'') ?s)"
    by (simp add: padStart_def)
  have dig: "list_all is_digit (padStart 4 (CHR ''0'') ?s)"
    using show_nat_digits [of "nat (YearFromDay x)"] z by (auto simp: padStart_def list_all_iff)
  have val: "int (digits_val (padStart 4 (CHR ''0'') ?s)) = YearFromDay x"
    using assms by (simp add: padStart_def digits_val_zeros digits_val_show_nat)
  have "date_out x = padStart 4 (CHR ''0'') ?s @ ''-''
       @ padStart 2 (CHR ''0'') (show_nat (nat (MonthFromDay x + 1))) @ ''-''
       @ padStart 2 (CHR ''0'') (show_nat (nat (DateFromDay x)))"
    using assms by (simp add: date_out_def Let_def)
  then show ?thesis
    using date_in_fields [OF len dig assms val] by simp
qed

text \<open>What the database reads is a day of the years 1 to 5874897.\<close>

lemma date_in_year:
  assumes "date_in s = Some x"
  shows "1 \<le> YearFromDay x \<and> YearFromDay x \<le> 5874897"
  using assms
  by (auto simp: date_in_def Let_def split: list.splits if_splits)

text \<open>A printed date that the database reads is the day it names, of the year 100 or later.\<close>

lemma date_in_toISODate_year:
  assumes "date_in (toISODate (Some x)) = Some l"
  shows "100 \<le> YearFromDay x \<and> l = x"
proof -
  let ?b = "padStart 2 (CHR ''0'') (show_nat (nat (MonthFromDay x + 1)))"
  let ?c = "padStart 2 (CHR ''0'') (show_nat (nat (DateFromDay x)))"
  have nn: "0 \<le> YearFromDay x"
  proof (rule ccontr)
    assume neg: "\<not> 0 \<le> YearFromDay x"
    hence "toISODate (Some x) =
        (CHR ''-'' # show_nat (nat (- YearFromDay x))) @ ''-'' @ ?b @ ''-'' @ ?c"
      by (simp add: toISODate_Some Number_toString_def)
    hence "text_fields (CHR ''-'') (toISODate (Some x)) = [[], show_nat (nat (- YearFromDay x)), ?b, ?c]"
      using fields_date_minus [OF show_nat_digits month_day_text(2) [of x] month_day_text(5) [of x]]
      by simp
    with assms show False by (simp add: date_in_def)
  qed
  hence t: "toISODate (Some x) = show_nat (nat (YearFromDay x)) @ ''-'' @ ?b @ ''-'' @ ?c"
    by (simp add: toISODate_Some Number_toString_def)
  have f: "text_fields (CHR ''-'') (toISODate (Some x)) = [show_nat (nat (YearFromDay x)), ?b, ?c]"
    unfolding t by (rule fields_date [OF show_nat_digits month_day_text(2) month_day_text(5)])
  from assms have a: "3 \<le> length (show_nat (nat (YearFromDay x)))"
    and b: "int (digits_val (show_nat (nat (YearFromDay x)))) \<le> 5874897"
    unfolding date_in_def f by (simp_all add: Let_def split: if_splits)
  from a have r: "100 \<le> YearFromDay x" by (simp add: length_show_nat_ge3_iff)
  with b nn have "YearFromDay x \<le> 5874897" by (simp add: digits_val_show_nat)
  with assms date_in_toISODate [OF r] r show ?thesis by simp
qed

text \<open>A valid time value is a day of a year up to 275760.\<close>

lemma DayFromYear_275761: "DayFromYear 275761 = 100000110"
  by (simp add: DayFromYear_def)

lemma clipped_year:
  assumes "\<bar>x\<bar> \<le> 100000000"
  shows "YearFromDay x \<le> 275760"
proof (rule ccontr)
  assume "\<not> YearFromDay x \<le> 275760"
  hence "275761 \<le> YearFromDay x" by simp
  hence "DayFromYear 275761 \<le> DayFromYear (YearFromDay x)" by (rule DayFromYear_mono)
  with YearFromDay_bounds [of x] assms show False by (simp add: DayFromYear_275761)
qed

lemma Date_parse_toISODate:
  assumes "1000 \<le> YearFromDay x" "YearFromDay x \<le> 9999" "\<bar>x\<bar> \<le> 100000000"
  shows "Date_parse (toISODate (Some x) @ ''T00:00:00Z'') = Some x"
proof -
  let ?a = "show_nat (nat (YearFromDay x))"
  let ?b = "padStart 2 (CHR ''0'') (show_nat (nat (MonthFromDay x + 1)))"
  let ?c = "padStart 2 (CHR ''0'') (show_nat (nat (DateFromDay x)))"
  let ?s = "?a @ ''-'' @ ?b @ ''-'' @ ?c"
  have n: "Number_toString (Some (YearFromDay x)) = ?a"
    using assms by (simp add: Number_toString_def)
  have la: "length ?a = 4" using assms by (simp add: length_show_nat_4)
  have s: "toISODate (Some x) = ?s" by (simp add: toISODate_Some n)
  note p = iso_layout_T [OF la month_day_text(1) [of x] month_day_text(4) [of x],
      of "''T00:00:00Z''"]
  have mk: "MakeDay (YearFromDay x) (MonthFromDay x + 1 - 1) (DateFromDay x) = x"
    by (simp add: MakeDay_fields)
  have v: "int (digits_val ?a) = YearFromDay x"
    using assms by (simp add: digits_val_show_nat)
  show ?thesis
    unfolding s Date_parse_def p Let_def
    using month_day_text [of x] show_nat_digits [of "nat (YearFromDay x)"] v mk assms(3)
      MonthFromDay_range [of x] DateFromDay_range [of x]
    by (simp add: TimeClip_def)
qed

section \<open>Properties of the statements\<close>

lemma withTx_Inl:
  "withTx fn s = (Inl e, s') \<Longrightarrow> same_tables s s'"
  by (auto simp: withTx_def same_tables_def split: prod.splits sum.splits)


text \<open>The statements, one by one.\<close>

lemma insert_columns_email:
  "\<not> set insert_columns \<subseteq> set bookings_columns"
  "set insert_columns_earlier \<subseteq> set bookings_columns"
  by (auto simp: insert_columns_def insert_columns_earlier_def bookings_columns_def)

text \<open>
  The \<open>INSERT\<close> of the later revision names the column \<open>email\<close>: on the table of
  schema.sql it is rejected, whatever its parameters are, and changes nothing.
\<close>

lemma insert_booking_email:
  "insert_booking s now insert_columns fn ph ig date slot = (Inl undefined_column, s)"
  by (simp add: insert_booking_def insert_columns_email)

lemma insert_booking_Inr:
  "insert_booking s now cols fn ph ig date slot = (Inr row, s') \<longleftrightarrow>
     (set cols \<subseteq> set bookings_columns
      \<and> CHR 0x00 \<notin> set fn \<union> set ph \<union> set ig
      \<and> bookings_id_seq s \<le> int4_max
      \<and> (\<exists>d. date_in date = Some d \<and> slot_check slot
            \<and> \<not> (\<exists>b \<in> set (bookings s). b_date b = d \<and> b_slot b = slot)
            \<and> row = new_booking s now fn ph ig d slot
            \<and> s' = s\<lparr>bookings_id_seq := bookings_id_seq s + 1, bookings := bookings s @ [row]\<rparr>))"
  by (auto simp: insert_booking_def new_booking_def Let_def split: option.splits)

lemma insert_booking_Inl:
  "insert_booking s now cols fn ph ig date slot = (Inl e, s') \<Longrightarrow>
     same_tables s s' \<and> bookings_id_seq s \<le> bookings_id_seq s'
       \<and> slot_overrides_id_seq s' = slot_overrides_id_seq s"
  by (auto simp: insert_booking_def Let_def same_tables_def split: option.splits if_splits)

lemma upsert_override_Inr:
  "upsert_override s now date slot io = (Inr u, s') \<Longrightarrow>
     (\<exists>d. date_in date = Some d \<and> slot_check slot \<and> slot_overrides_id_seq s \<le> int4_max
        \<and> s' = set_override s now d slot io)"
  by (auto simp: upsert_override_def set_override_def Let_def split: option.splits if_splits)

lemma upsert_override_Inl:
  "upsert_override s now date slot io = (Inl e, s') \<Longrightarrow>
     same_tables s s' \<and> bookings_id_seq s' = bookings_id_seq s
       \<and> slot_overrides_id_seq s \<le> slot_overrides_id_seq s'"
  by (auto simp: upsert_override_def Let_def same_tables_def split: option.splits if_splits)

lemma upsert_override_check:
  "\<not> slot_check slot \<Longrightarrow> \<exists>e s'. upsert_override s now date slot io = (Inl e, s')"
  by (auto simp: upsert_override_def Let_def split: option.splits)

lemma upsert_override_ok:
  assumes "date_in date = Some d" "slot_check slot" "slot_overrides_id_seq s \<le> int4_max"
  shows "upsert_override s now date slot io = (Inr (), set_override s now d slot io)"
  using assms by (simp add: upsert_override_def set_override_def Let_def)

lemma set_override_bookings:
  "bookings (set_override s now d slot io) = bookings s"
  "bookings_id_seq (set_override s now d slot io) = bookings_id_seq s"
  "slot_overrides_id_seq (set_override s now d slot io) = slot_overrides_id_seq s + 1"
  by (simp_all add: set_override_def)

text \<open>The constraints of the schema are kept by every statement.\<close>

lemma constraints_insert_booking:
  assumes "constraints_hold s" "insert_booking s now cols fn ph ig date slot = (r, s')"
  shows "constraints_hold s'"
proof (cases r)
  case (Inl e)
  with assms insert_booking_Inl [of s now cols fn ph ig date slot e s'] show ?thesis
    by (simp add: constraints_hold_def same_tables_def)
next
  case (Inr row)
  with assms(2) obtain d where d: "date_in date = Some d" "slot_check slot"
      "\<not> (\<exists>b \<in> set (bookings s). b_date b = d \<and> b_slot b = slot)"
      "b_date row = d" "b_slot row = slot"
      "bookings s' = bookings s @ [row]" "slot_overrides s' = slot_overrides s"
    by (auto simp: insert_booking_Inr new_booking_def)
  with assms(1) show ?thesis
    by (auto simp: constraints_hold_def list_all_iff)
qed

lemma distinct_map_update:
  assumes "distinct (map (\<lambda>ov. (o_date ov, o_slot ov)) xs)"
  shows "distinct (map (\<lambda>ov. (o_date ov, o_slot ov))
           (map (\<lambda>ov. if o_date ov = d \<and> o_slot ov = sl then ov\<lparr>o_is_open := io\<rparr> else ov) xs))"
proof -
  have e: "(\<lambda>ov. (o_date ov, o_slot ov))
             \<circ> (\<lambda>ov. if o_date ov = d \<and> o_slot ov = sl then ov\<lparr>o_is_open := io\<rparr> else ov)
           = (\<lambda>ov. (o_date ov, o_slot ov))"
    by (auto simp: fun_eq_iff)
  show ?thesis using assms by (simp add: e)
qed

lemma constraints_set_override:
  assumes "constraints_hold s" "slot_check slot"
  shows "constraints_hold (set_override s now d slot io)"
proof (cases "\<exists>ov \<in> set (slot_overrides s). o_date ov = d \<and> o_slot ov = slot")
  case True
  with assms distinct_map_update [of "slot_overrides s" d slot io] show ?thesis
    by (auto simp: constraints_hold_def set_override_def list_all_iff)
next
  case False
  with assms show ?thesis
    by (auto simp: constraints_hold_def set_override_def list_all_iff)
qed

lemma constraints_upsert_override:
  assumes "constraints_hold s" "upsert_override s now date slot io = (r, s')"
  shows "constraints_hold s'"
proof (cases r)
  case (Inl e)
  with assms upsert_override_Inl [of s now date slot io e s'] show ?thesis
    by (simp add: constraints_hold_def same_tables_def)
next
  case (Inr u)
  with assms(2) upsert_override_Inr [of s now date slot io u s']
  obtain d where "slot_check slot" "s' = set_override s now d slot io" by blast
  with constraints_set_override [OF assms(1)] show ?thesis by simp
qed

lemma constraints_delete_matching:
  assumes "constraints_hold s" "delete_booking_matching s date slot ph ig = (r, s')"
  shows "constraints_hold s'"
  using assms
  by (auto simp: delete_booking_matching_def constraints_hold_def list_all_iff Let_def
      distinct_map_filter split: option.splits)

lemma unique_filter:
  assumes "distinct (map f xs)"
  shows "filter (\<lambda>x. f x = k) xs = [] \<or> (\<exists>x. filter (\<lambda>x. f x = k) xs = [x])"
  using assms
proof (induction xs)
  case Nil
  show ?case by simp
next
  case (Cons a xs)
  show ?case
  proof (cases "f a = k")
    case True
    with Cons.prems have "\<forall>x \<in> set xs. f x \<noteq> k" by (auto simp: image_iff)
    hence "filter (\<lambda>x. f x = k) xs = []" by (simp add: filter_empty_conv)
    with True show ?thesis by simp
  next
    case False
    with Cons show ?thesis by simp
  qed
qed

lemma unique_hd:
  assumes "distinct (map f xs)"
  shows "(filter (\<lambda>x. f x = k) xs \<noteq> [] \<and> Q (hd (filter (\<lambda>x. f x = k) xs)))
           \<longleftrightarrow> (\<exists>x \<in> set xs. f x = k \<and> Q x)"
proof -
  from unique_filter [OF assms, of k]
  consider "filter (\<lambda>x. f x = k) xs = []" | x where "filter (\<lambda>x. f x = k) xs = [x]"
    by blast
  then show ?thesis
  proof cases
    case 1
    then show ?thesis by (auto simp: filter_empty_conv)
  next
    case 2
    hence "set (filter (\<lambda>x. f x = k) xs) = {x}" by simp
    hence m: "\<And>y. (y \<in> set xs \<and> f y = k) \<longleftrightarrow> y = x" by auto
    show ?thesis
    proof
      assume "filter (\<lambda>x. f x = k) xs \<noteq> [] \<and> Q (hd (filter (\<lambda>x. f x = k) xs))"
      with 2 have "Q x" by simp
      moreover from m [of x] have "x \<in> set xs" "f x = k" by simp_all
      ultimately show "\<exists>x \<in> set xs. f x = k \<and> Q x" by blast
    next
      assume "\<exists>x \<in> set xs. f x = k \<and> Q x"
      then obtain y where "y \<in> set xs" "f y = k" "Q y" by blast
      with m [of y] have "Q x" by simp
      with 2 show "filter (\<lambda>x. f x = k) xs \<noteq> [] \<and> Q (hd (filter (\<lambda>x. f x = k) xs))"
        by simp
    qed
  qed
qed

lemma override_hd:
  assumes "constraints_hold s"
  shows "(filter (\<lambda>ov. o_date ov = d \<and> o_slot ov = slot) (slot_overrides s) \<noteq> []
            \<and> Q (hd (filter (\<lambda>ov. o_date ov = d \<and> o_slot ov = slot) (slot_overrides s))))
         \<longleftrightarrow> (\<exists>ov \<in> set (slot_overrides s). o_date ov = d \<and> o_slot ov = slot \<and> Q ov)"
proof -
  have e: "(\<lambda>ov. o_date ov = d \<and> o_slot ov = slot) = (\<lambda>ov. (o_date ov, o_slot ov) = (d, slot))"
    by auto
  have "distinct (map (\<lambda>ov. (o_date ov, o_slot ov)) (slot_overrides s))"
    using assms by (simp add: constraints_hold_def)
  from unique_hd [OF this, of "(d, slot)" Q] show ?thesis
    unfolding e by simp
qed

text \<open>
  The body of the transaction of \<open>/book\<close>, for a date that the storage reads: the two
  deliberate aborts, and otherwise the outcome of the \<open>INSERT\<close>.
\<close>

lemma book_tx_result:
  assumes "constraints_hold s" "date_in date = Some d"
  shows "book_tx now cols fn ph ig date slot s =
     (if \<exists>b \<in> set (bookings s). b_date b = d \<and> b_slot b = slot
        then (Inl Ese_turno_ya_fue_reservado, s)
      else if \<exists>ov \<in> set (slot_overrides s). o_date ov = d \<and> o_slot ov = slot \<and> \<not> o_is_open ov
        then (Inl Ese_turno_esta_cerrado, s)
      else (case insert_booking s now cols fn ph ig date slot of
              (Inl e, s') \<Rightarrow> (Inl (Sql e), s')
            | (Inr row, s') \<Rightarrow> (Inr row, s')))"
proof -
  note oh = override_hd [OF assms(1), of d slot "\<lambda>ov. \<not> o_is_open ov"]
  show ?thesis
  proof (cases "\<exists>b \<in> set (bookings s). b_date b = d \<and> b_slot b = slot")
    case True
    hence "filter (\<lambda>b. b_date b = d \<and> b_slot b = slot) (bookings s) \<noteq> []"
      by (simp add: filter_empty_conv)
    with True assms(2) show ?thesis
      by (simp add: book_tx_def select_booking_for_update_def)
  next
    case False
    hence f: "filter (\<lambda>b. b_date b = d \<and> b_slot b = slot) (bookings s) = []"
      by (simp add: filter_empty_conv)
    show ?thesis
    proof (cases "\<exists>ov \<in> set (slot_overrides s). o_date ov = d \<and> o_slot ov = slot \<and> \<not> o_is_open ov")
      case True
      with oh have "filter (\<lambda>ov. o_date ov = d \<and> o_slot ov = slot) (slot_overrides s) \<noteq> []
            \<and> \<not> o_is_open (hd (filter (\<lambda>ov. o_date ov = d \<and> o_slot ov = slot) (slot_overrides s)))"
        by blast
      with True False f assms(2) show ?thesis
        by (simp add: book_tx_def select_booking_for_update_def select_override_def)
    next
      case nc: False
      with oh have "\<not> (filter (\<lambda>ov. o_date ov = d \<and> o_slot ov = slot) (slot_overrides s) \<noteq> []
            \<and> \<not> o_is_open (hd (filter (\<lambda>ov. o_date ov = d \<and> o_slot ov = slot) (slot_overrides s))))"
        by blast
      hence g: "(0 < length (filter (\<lambda>ov. o_date ov = d \<and> o_slot ov = slot) (slot_overrides s))
            \<and> \<not> o_is_open (hd (filter (\<lambda>ov. o_date ov = d \<and> o_slot ov = slot) (slot_overrides s))))
          = False"
        by simp
      have "book_tx now cols fn ph ig date slot s =
          (case insert_booking s now cols fn ph ig date slot of
              (Inl e, s') \<Rightarrow> (Inl (Sql e), s')
            | (Inr row, s') \<Rightarrow> (Inr row, s'))"
        by (simp add: book_tx_def select_booking_for_update_def select_override_def assms(2) f g
            del: length_greater_0_conv)
      then show ?thesis
        by (simp only: False nc if_False)
    qed
  qed
qed

lemma book_tx_taken:
  assumes "constraints_hold s" "date_in date = Some d"
    and "\<exists>b \<in> set (bookings s). b_date b = d \<and> b_slot b = slot"
  shows "book_tx now cols fn ph ig date slot s = (Inl Ese_turno_ya_fue_reservado, s)"
  unfolding book_tx_result [OF assms(1,2)] by (simp only: assms(3) if_True)

lemma book_tx_closed:
  assumes "constraints_hold s" "date_in date = Some d"
    and "\<not> (\<exists>b \<in> set (bookings s). b_date b = d \<and> b_slot b = slot)"
    and "\<exists>ov \<in> set (slot_overrides s). o_date ov = d \<and> o_slot ov = slot \<and> \<not> o_is_open ov"
  shows "book_tx now cols fn ph ig date slot s = (Inl Ese_turno_esta_cerrado, s)"
  unfolding book_tx_result [OF assms(1,2)] by (simp only: assms(3,4) if_True if_False)

lemma book_tx_free:
  assumes "constraints_hold s" "date_in date = Some d"
    and "\<not> (\<exists>b \<in> set (bookings s). b_date b = d \<and> b_slot b = slot)"
    and "\<not> (\<exists>ov \<in> set (slot_overrides s). o_date ov = d \<and> o_slot ov = slot \<and> \<not> o_is_open ov)"
  shows "book_tx now cols fn ph ig date slot s =
     (case insert_booking s now cols fn ph ig date slot of
        (Inl e, s') \<Rightarrow> (Inl (Sql e), s')
      | (Inr row, s') \<Rightarrow> (Inr row, s'))"
  unfolding book_tx_result [OF assms(1,2)] by (simp only: assms(3,4) if_False)

lemma book_tx_invalid_date:
  "date_in date = None \<Longrightarrow>
     book_tx now cols fn ph ig date slot s = (Inl (Sql invalid_datetime_format), s)"
  by (simp add: book_tx_def select_booking_for_update_def)

text \<open>The body of the later revision always throws, and leaves the state as it was.\<close>

lemma book_tx_email:
  "\<exists>e. book_tx now insert_columns fn ph ig date slot s = (Inl e, s)"
  by (auto simp: book_tx_def insert_booking_email split: sum.splits)

section \<open>The constraints hold in every reachable state\<close>

lemma book_reaches:
  "reaches_tx now rq \<Longrightarrow>
     book now rq s =
       (case withTx (book_tx now insert_columns (text_of (rq_full_name rq)) (text_of (rq_phone rq))
                       (text_of (rq_instagram rq))
                       (text_of (rq_date rq)) (text_of (rq_slot rq))) s of
          (Inr result, s') \<Rightarrow> (Book_ok (b_id result) (b_created_at result), s')
        | (Inl e, s') \<Rightarrow> (Book_409 e, s'))"
  by (simp add: book_def reaches_tx_def Let_def)

lemma book_rejected:
  "\<not> reaches_tx now rq \<Longrightarrow>
     snd (book now rq s) = s
     \<and> (fst (book now rq s) = Book_400_Datos_incompletos
          \<or> fst (book now rq s) = Book_400_Fecha_fuera_de_ventana)"
  by (auto simp: book_def reaches_tx_def Let_def)

lemma book_earlier_reaches:
  "reaches_tx_earlier now rq \<Longrightarrow>
     book_earlier now rq s =
       (case withTx (book_tx now insert_columns_earlier (text_of (rq_full_name rq))
                       (text_of (rq_phone rq)) (text_of (rq_instagram rq))
                       (text_of (rq_date rq)) (text_of (rq_slot rq))) s of
          (Inr result, s') \<Rightarrow> (Book_ok (b_id result) (b_created_at result), s')
        | (Inl e, s') \<Rightarrow> (Book_409 e, s'))"
  by (simp add: book_earlier_def reaches_tx_earlier_def Let_def)

lemma book_earlier_rejected:
  "\<not> reaches_tx_earlier now rq \<Longrightarrow>
     snd (book_earlier now rq s) = s
     \<and> (fst (book_earlier now rq s) = Book_400_Datos_incompletos
          \<or> fst (book_earlier now rq s) = Book_400_Fecha_fuera_de_ventana)"
  by (auto simp: book_earlier_def reaches_tx_earlier_def Let_def)

text \<open>
  On the tables of schema.sql, \<open>/book\<close> of the later revision never succeeds and never
  changes the state: a call that reaches the transaction is answered with 409.
\<close>

lemma book_conflict:
  assumes "reaches_tx now rq"
  shows "\<exists>e. book now rq s = (Book_409 e, s)"
proof -
  from book_tx_email obtain e where
    "book_tx now insert_columns (text_of (rq_full_name rq)) (text_of (rq_phone rq))
       (text_of (rq_instagram rq)) (text_of (rq_date rq)) (text_of (rq_slot rq)) s = (Inl e, s)"
    by blast
  then show ?thesis
    by (simp add: book_reaches [OF assms] withTx_def)
qed

lemma book_state: "snd (book now rq s) = s"
proof (cases "reaches_tx now rq")
  case True
  from book_conflict [OF True, of s] show ?thesis by auto
next
  case False
  from book_rejected [OF False] show ?thesis by simp
qed


lemma book_tx_state:
  assumes "book_tx now cols fn ph ig date slot s = (r, s')"
  shows "s' = s \<or> (\<exists>q. insert_booking s now cols fn ph ig date slot = (q, s'))"
  using assms
  by (auto simp: book_tx_def split: sum.splits if_splits prod.splits)

lemma insert_booking_seqs:
  "insert_booking s now cols fn ph ig date slot = (q, s') \<Longrightarrow>
     bookings_id_seq s \<le> bookings_id_seq s' \<and> slot_overrides_id_seq s' = slot_overrides_id_seq s"
  by (auto simp: insert_booking_def Let_def split: option.splits if_splits)

lemma upsert_override_seqs:
  "upsert_override s now date slot io = (q, s') \<Longrightarrow>
     bookings_id_seq s' = bookings_id_seq s \<and> slot_overrides_id_seq s \<le> slot_overrides_id_seq s'"
  by (auto simp: upsert_override_def Let_def split: option.splits if_splits)

lemma delete_matching_seqs:
  "delete_booking_matching s date slot ph ig = (q, s') \<Longrightarrow>
     bookings_id_seq s' = bookings_id_seq s \<and> slot_overrides_id_seq s' = slot_overrides_id_seq s"
  by (auto simp: delete_booking_matching_def Let_def split: option.splits)

lemma book_tx_keeps:
  assumes "book_tx now cols fn ph ig date slot s = (r, s')" "constraints_hold s" "seqs_started s"
  shows "constraints_hold s' \<and> seqs_started s'"
proof -
  from book_tx_state [OF assms(1)]
  consider "s' = s" | q where "insert_booking s now cols fn ph ig date slot = (q, s')"
    by blast
  then show ?thesis
  proof cases
    case 1
    with assms show ?thesis by simp
  next
    case 2
    from constraints_insert_booking [OF assms(2) 2] insert_booking_seqs [OF 2] assms(3)
    show ?thesis by (simp add: seqs_started_def)
  qed
qed

lemma withTx_keeps:
  assumes "\<And>r t. fn s = (r, t) \<Longrightarrow> constraints_hold t \<and> seqs_started t"
    and "constraints_hold s"
  shows "constraints_hold (snd (withTx fn s)) \<and> seqs_started (snd (withTx fn s))"
proof (cases "fn s")
  case (Pair r t)
  from assms(1) [OF Pair] have t: "constraints_hold t" "seqs_started t" by simp_all
  show ?thesis
  proof (cases r)
    case (Inl e)
    with Pair t assms(2) show ?thesis
      by (simp add: withTx_def constraints_hold_def seqs_started_def)
  next
    case (Inr x)
    with Pair t show ?thesis by (simp add: withTx_def)
  qed
qed

lemma book_earlier_keeps:
  assumes "constraints_hold s" "seqs_started s"
  shows "constraints_hold (snd (book_earlier now rq s)) \<and> seqs_started (snd (book_earlier now rq s))"
proof (cases "reaches_tx_earlier now rq")
  case False
  with book_earlier_rejected [OF False, of s] assms show ?thesis by simp
next
  case True
  let ?fn = "book_tx now insert_columns_earlier (text_of (rq_full_name rq)) (text_of (rq_phone rq))
               (text_of (rq_instagram rq)) (text_of (rq_date rq)) (text_of (rq_slot rq))"
  have "constraints_hold (snd (withTx ?fn s)) \<and> seqs_started (snd (withTx ?fn s))"
    using assms by (intro withTx_keeps) (auto dest: book_tx_keeps)
  moreover have "snd (book_earlier now rq s) = snd (withTx ?fn s)"
    by (simp add: book_earlier_reaches [OF True] split: prod.splits sum.splits)
  ultimately show ?thesis by simp
qed

lemma admin_slot_tx_keeps:
  assumes "admin_slot_tx now date slot io s = (r, s')" "constraints_hold s" "seqs_started s"
  shows "constraints_hold s' \<and> seqs_started s'"
proof (cases "upsert_override s now date slot io")
  case (Pair q s1)
  from constraints_upsert_override [OF assms(2) Pair] upsert_override_seqs [OF Pair] assms(3)
  have s1: "constraints_hold s1" "seqs_started s1" by (simp_all add: seqs_started_def)
  show ?thesis
  proof (cases q)
    case (Inl e)
    with Pair assms(1) s1 show ?thesis by (simp add: admin_slot_tx_def)
  next
    case (Inr u)
    show ?thesis
    proof (cases io)
      case True
      obtain q2 s2 where d: "delete_booking_matching s1 date slot ADMIN_PHONE ADMIN_IG = (q2, s2)"
        by (cases "delete_booking_matching s1 date slot ADMIN_PHONE ADMIN_IG")
      from constraints_delete_matching [OF s1(1) d] delete_matching_seqs [OF d] s1(2)
      have "constraints_hold s2" "seqs_started s2" by (simp_all add: seqs_started_def)
      with Pair Inr True d assms(1) show ?thesis
        by (auto simp: admin_slot_tx_def split: sum.splits)
    next
      case False
      with Pair Inr assms(1) s1 show ?thesis
        by (auto simp: admin_slot_tx_def insert_booking_email split: sum.splits if_splits)
    qed
  qed
qed

lemma admin_slot_keeps:
  assumes "constraints_hold s" "seqs_started s"
  shows "constraints_hold (snd (admin_slot now sr s)) \<and> seqs_started (snd (admin_slot now sr s))"
proof (cases "sr_is_open sr")
  case None
  with assms show ?thesis by (simp add: admin_slot_def)
next
  case (Some io)
  show ?thesis
  proof (cases "falsy (sr_date sr) \<or> text_of (sr_slot sr) \<notin> set SLOT_KEYS")
    case True
    with Some assms show ?thesis by (auto simp: admin_slot_def)
  next
    case False
    let ?fn = "admin_slot_tx now (text_of (sr_date sr)) (text_of (sr_slot sr)) io"
    have "constraints_hold (snd (withTx ?fn s)) \<and> seqs_started (snd (withTx ?fn s))"
      using assms by (intro withTx_keeps) (auto dest: admin_slot_tx_keeps)
    moreover have "snd (admin_slot now sr s) = snd (withTx ?fn s)"
      using Some False by (auto simp: admin_slot_def split: prod.splits sum.splits)
    ultimately show ?thesis by simp
  qed
qed

lemma admin_slot_earlier_keeps:
  assumes "constraints_hold s" "seqs_started s"
  shows "constraints_hold (snd (admin_slot_earlier now sr s))
         \<and> seqs_started (snd (admin_slot_earlier now sr s))"
proof (cases "sr_is_open sr")
  case None
  with assms show ?thesis by (simp add: admin_slot_earlier_def)
next
  case (Some io)
  show ?thesis
  proof (cases "falsy (sr_date sr) \<or> text_of (sr_slot sr) \<notin> set [''A'', ''B'']")
    case True
    with Some assms show ?thesis by (auto simp: admin_slot_earlier_def)
  next
    case False
    obtain q s1 where u: "upsert_override s now (text_of (sr_date sr)) (text_of (sr_slot sr)) io = (q, s1)"
      by (cases "upsert_override s now (text_of (sr_date sr)) (text_of (sr_slot sr)) io")
    from constraints_upsert_override [OF assms(1) u] upsert_override_seqs [OF u] assms(2)
    have "constraints_hold s1" "seqs_started s1" by (simp_all add: seqs_started_def)
    moreover have "snd (admin_slot_earlier now sr s) = s1"
      using Some False u by (auto simp: admin_slot_earlier_def split: sum.splits)
    ultimately show ?thesis by simp
  qed
qed

text \<open>A cancellation by an identifier within the range of the column.\<close>

lemma delete_by_id_range:
  "- int4_max - 1 \<le> i \<Longrightarrow> i \<le> int4_max \<Longrightarrow>
     delete_booking_by_id s i =
       (Inr (length (filter (\<lambda>b. b_id b = i) (bookings s))),
        s\<lparr>bookings := filter (\<lambda>b. b_id b \<noteq> i) (bookings s)\<rparr>)"
  by (simp add: delete_booking_by_id_def)

lemma delete_by_id_state:
  "snd (delete_booking_by_id s i) = s
   \<or> snd (delete_booking_by_id s i) = s\<lparr>bookings := filter (\<lambda>b. b_id b \<noteq> i) (bookings s)\<rparr>"
  by (simp add: delete_booking_by_id_def)

lemma cancel_Some:
  "0 < i \<Longrightarrow> i \<le> int4_max \<Longrightarrow>
     cancel (Some i) s =
       (if filter (\<lambda>b. b_id b = i) (bookings s) = [] then Cancel_404 else Cancel_ok,
        s\<lparr>bookings := filter (\<lambda>b. b_id b \<noteq> i) (bookings s)\<rparr>)"
  by (simp add: cancel_def delete_by_id_range int4_max_def)


lemma cancel_state:
  "snd (cancel idn s) = s
   \<or> (\<exists>i. snd (cancel idn s) = s\<lparr>bookings := filter (\<lambda>b. b_id b \<noteq> i) (bookings s)\<rparr>)"
proof (cases idn)
  case None
  then show ?thesis by (simp add: cancel_def)
next
  case (Some i)
  have "snd (cancel (Some i) s) = s \<or> snd (cancel (Some i) s) = snd (delete_booking_by_id s i)"
    by (simp add: cancel_def split: prod.splits sum.splits)
  with delete_by_id_state [of s i] Some show ?thesis by auto
qed

lemma cancel_earlier_state:
  "snd (cancel_earlier idtext s) = s
   \<or> (\<exists>i. snd (cancel_earlier idtext s) = s\<lparr>bookings := filter (\<lambda>b. b_id b \<noteq> i) (bookings s)\<rparr>)"
proof (cases "parseInt idtext")
  case None
  then show ?thesis by (simp add: cancel_earlier_def)
next
  case (Some i)
  have "snd (cancel_earlier idtext s) = s
      \<or> snd (cancel_earlier idtext s) = snd (delete_booking_by_id s i)"
    using Some by (simp add: cancel_earlier_def split: prod.splits sum.splits)
  with delete_by_id_state [of s i] show ?thesis by auto
qed

lemma delete_rows_keeps:
  assumes "constraints_hold s" "seqs_started s"
  shows "constraints_hold (s\<lparr>bookings := filter (\<lambda>b. b_id b \<noteq> i) (bookings s)\<rparr>)
        \<and> seqs_started (s\<lparr>bookings := filter (\<lambda>b. b_id b \<noteq> i) (bookings s)\<rparr>)"
  using assms
  by (auto simp: constraints_hold_def seqs_started_def list_all_iff distinct_map_filter)

lemma cancel_keeps:
  assumes "constraints_hold s" "seqs_started s"
  shows "constraints_hold (snd (cancel idn s)) \<and> seqs_started (snd (cancel idn s))"
  using cancel_state [of idn s] assms delete_rows_keeps [OF assms] by auto

lemma cancel_earlier_keeps:
  assumes "constraints_hold s" "seqs_started s"
  shows "constraints_hold (snd (cancel_earlier idtext s)) \<and> seqs_started (snd (cancel_earlier idtext s))"
  using cancel_earlier_state [of idtext s] assms delete_rows_keeps [OF assms] by auto

lemma reachable_keeps: "reachable s \<Longrightarrow> constraints_hold s \<and> seqs_started s"
proof (induction rule: reachable.induct)
  case r_init
  show ?case by (simp add: empty_db_def constraints_hold_def seqs_started_def)
next
  case (r_book s now rq)
  then show ?case by (simp add: book_state)
next
  case (r_slot s now sr)
  then show ?case using admin_slot_keeps by blast
next
  case (r_cancel s idn)
  then show ?case using cancel_keeps by blast
next
  case (r_book_earlier s now rq)
  then show ?case using book_earlier_keeps by blast
next
  case (r_slot_earlier s now sr)
  then show ?case using admin_slot_earlier_keeps by blast
next
  case (r_cancel_earlier s idtext)
  then show ?case using cancel_earlier_keeps by blast
qed

section \<open>Outcomes of POST /book\<close>

text \<open>
  The later revision: the outcomes of a call that reaches the transaction with a date the
  storage reads. None of them is a success.
\<close>

lemma book_outcome:
  assumes "reaches_tx now rq" "constraints_hold s" "date_in (text_of (rq_date rq)) = Some d"
  shows "book now rq s =
     (Book_409
        (if \<exists>b \<in> set (bookings s). b_date b = d \<and> b_slot b = text_of (rq_slot rq)
           then Ese_turno_ya_fue_reservado
         else if \<exists>ov \<in> set (slot_overrides s). o_date ov = d \<and> o_slot ov = text_of (rq_slot rq)
                   \<and> \<not> o_is_open ov
           then Ese_turno_esta_cerrado
         else Sql undefined_column), s)"
proof -
  let ?slot = "text_of (rq_slot rq)"
  consider (a) "\<exists>b \<in> set (bookings s). b_date b = d \<and> b_slot b = ?slot"
    | (b) "\<not> (\<exists>b \<in> set (bookings s). b_date b = d \<and> b_slot b = ?slot)"
        "\<exists>ov \<in> set (slot_overrides s). o_date ov = d \<and> o_slot ov = ?slot \<and> \<not> o_is_open ov"
    | (c) "\<not> (\<exists>b \<in> set (bookings s). b_date b = d \<and> b_slot b = ?slot)"
        "\<not> (\<exists>ov \<in> set (slot_overrides s). o_date ov = d \<and> o_slot ov = ?slot \<and> \<not> o_is_open ov)"
    by blast
  then show ?thesis
  proof cases
    case a
    have "withTx (book_tx now insert_columns (text_of (rq_full_name rq)) (text_of (rq_phone rq))
        (text_of (rq_instagram rq)) (text_of (rq_date rq)) ?slot) s
        = (Inl Ese_turno_ya_fue_reservado, s)"
      by (simp add: withTx_def book_tx_taken [OF assms(2,3) a])
    then show ?thesis
      unfolding book_reaches [OF assms(1)] by (simp only: a if_True) simp
  next
    case b
    have "withTx (book_tx now insert_columns (text_of (rq_full_name rq)) (text_of (rq_phone rq))
        (text_of (rq_instagram rq)) (text_of (rq_date rq)) ?slot) s
        = (Inl Ese_turno_esta_cerrado, s)"
      by (simp add: withTx_def book_tx_closed [OF assms(2,3) b])
    then show ?thesis
      unfolding book_reaches [OF assms(1)] by (simp only: b if_True if_False) simp
  next
    case c
    have "withTx (book_tx now insert_columns (text_of (rq_full_name rq)) (text_of (rq_phone rq))
        (text_of (rq_instagram rq)) (text_of (rq_date rq)) ?slot) s
        = (Inl (Sql undefined_column), s)"
      by (simp add: withTx_def book_tx_free [OF assms(2,3) c] insert_booking_email)
    then show ?thesis
      unfolding book_reaches [OF assms(1)] by (simp only: c if_False) simp
  qed
qed

lemma book_outcome_invalid_date:
  assumes "reaches_tx now rq" "date_in (text_of (rq_date rq)) = None"
  shows "book now rq s = (Book_409 (Sql invalid_datetime_format), s)"
  by (simp add: book_reaches [OF assms(1)] book_tx_invalid_date [OF assms(2)] withTx_def)


text \<open>The earlier revision succeeds on a free slot, for contact fields without a NUL byte.\<close>

lemma book_earlier_free:
  assumes "reaches_tx_earlier now rq" "constraints_hold s"
    and "date_in (text_of (rq_date rq)) = Some d"
    and "\<not> (\<exists>b \<in> set (bookings s). b_date b = d \<and> b_slot b = text_of (rq_slot rq))"
    and "\<not> (\<exists>ov \<in> set (slot_overrides s). o_date ov = d \<and> o_slot ov = text_of (rq_slot rq)
              \<and> \<not> o_is_open ov)"
    and "CHR 0x00 \<notin> set (text_of (rq_full_name rq)) \<union> set (text_of (rq_phone rq))
           \<union> set (text_of (rq_instagram rq))"
    and "bookings_id_seq s \<le> int4_max"
  shows "book_earlier now rq s =
     (Book_ok (bookings_id_seq s) now,
      s\<lparr>bookings_id_seq := bookings_id_seq s + 1,
        bookings := bookings s @
          [new_booking s now (text_of (rq_full_name rq)) (text_of (rq_phone rq))
             (text_of (rq_instagram rq)) d (text_of (rq_slot rq))]\<rparr>)"
proof -
  have sc: "slot_check (text_of (rq_slot rq))"
    using assms(1) by (auto simp: reaches_tx_earlier_def slot_check_def)
  have i: "insert_booking s now insert_columns_earlier (text_of (rq_full_name rq))
          (text_of (rq_phone rq)) (text_of (rq_instagram rq)) (text_of (rq_date rq))
          (text_of (rq_slot rq)) =
        (Inr (new_booking s now (text_of (rq_full_name rq)) (text_of (rq_phone rq))
             (text_of (rq_instagram rq)) d (text_of (rq_slot rq))),
         s\<lparr>bookings_id_seq := bookings_id_seq s + 1,
           bookings := bookings s @
             [new_booking s now (text_of (rq_full_name rq)) (text_of (rq_phone rq))
                (text_of (rq_instagram rq)) d (text_of (rq_slot rq))]\<rparr>)"
    unfolding insert_booking_Inr
    using assms(3,4,6,7) sc insert_columns_email(2) by simp
  show ?thesis
    unfolding book_earlier_reaches [OF assms(1)]
    by (simp add: withTx_def book_tx_free [OF assms(2,3,4,5)] i new_booking_def)
qed

text \<open>
  The earlier revision reports a conflict exactly for a slot that is booked or closed,
  when the date of the call is read by the storage, the contact fields hold no NUL byte
  and the sequence is not used up; a conflict leaves both tables as they were.
\<close>

lemma book_earlier_conflict_iff:
  assumes "reaches_tx_earlier now rq" "constraints_hold s"
    and "date_in (text_of (rq_date rq)) = Some d"
    and "CHR 0x00 \<notin> set (text_of (rq_full_name rq)) \<union> set (text_of (rq_phone rq))
           \<union> set (text_of (rq_instagram rq))"
    and "bookings_id_seq s \<le> int4_max"
  shows "(\<exists>e. fst (book_earlier now rq s) = Book_409 e) \<longleftrightarrow>
           (\<exists>b \<in> set (bookings s). b_date b = d \<and> b_slot b = text_of (rq_slot rq))
           \<or> (\<exists>ov \<in> set (slot_overrides s). o_date ov = d \<and> o_slot ov = text_of (rq_slot rq)
                 \<and> \<not> o_is_open ov)"
    and "(\<exists>e. fst (book_earlier now rq s) = Book_409 e) \<longrightarrow>
           same_tables s (snd (book_earlier now rq s))"
proof -
  let ?slot = "text_of (rq_slot rq)"
  let ?fn = "book_tx now insert_columns_earlier (text_of (rq_full_name rq)) (text_of (rq_phone rq))
               (text_of (rq_instagram rq)) (text_of (rq_date rq)) ?slot"
  consider (a) "\<exists>b \<in> set (bookings s). b_date b = d \<and> b_slot b = ?slot"
    | (b) "\<not> (\<exists>b \<in> set (bookings s). b_date b = d \<and> b_slot b = ?slot)"
        "\<exists>ov \<in> set (slot_overrides s). o_date ov = d \<and> o_slot ov = ?slot \<and> \<not> o_is_open ov"
    | (c) "\<not> (\<exists>b \<in> set (bookings s). b_date b = d \<and> b_slot b = ?slot)"
        "\<not> (\<exists>ov \<in> set (slot_overrides s). o_date ov = d \<and> o_slot ov = ?slot \<and> \<not> o_is_open ov)"
    by blast
  then have "((\<exists>e. fst (book_earlier now rq s) = Book_409 e) \<longleftrightarrow>
           (\<exists>b \<in> set (bookings s). b_date b = d \<and> b_slot b = ?slot)
           \<or> (\<exists>ov \<in> set (slot_overrides s). o_date ov = d \<and> o_slot ov = ?slot \<and> \<not> o_is_open ov))
      \<and> ((\<exists>e. fst (book_earlier now rq s) = Book_409 e) \<longrightarrow>
           same_tables s (snd (book_earlier now rq s)))"
  proof cases
    case a
    have "withTx ?fn s = (Inl Ese_turno_ya_fue_reservado, s)"
      by (simp add: withTx_def book_tx_taken [OF assms(2,3) a])
    hence "book_earlier now rq s = (Book_409 Ese_turno_ya_fue_reservado, s)"
      by (simp add: book_earlier_reaches [OF assms(1)])
    with a show ?thesis by (simp add: same_tables_def)
  next
    case b
    have "withTx ?fn s = (Inl Ese_turno_esta_cerrado, s)"
      by (simp add: withTx_def book_tx_closed [OF assms(2,3) b])
    hence "book_earlier now rq s = (Book_409 Ese_turno_esta_cerrado, s)"
      by (simp add: book_earlier_reaches [OF assms(1)])
    with b show ?thesis by (simp add: same_tables_def)
  next
    case c
    from book_earlier_free [OF assms(1,2,3) c assms(4,5)] c show ?thesis by simp
  qed
  then show "(\<exists>e. fst (book_earlier now rq s) = Book_409 e) \<longleftrightarrow>
           (\<exists>b \<in> set (bookings s). b_date b = d \<and> b_slot b = text_of (rq_slot rq))
           \<or> (\<exists>ov \<in> set (slot_overrides s). o_date ov = d \<and> o_slot ov = text_of (rq_slot rq)
                 \<and> \<not> o_is_open ov)"
    and "(\<exists>e. fst (book_earlier now rq s) = Book_409 e) \<longrightarrow>
           same_tables s (snd (book_earlier now rq s))"
    by blast+
qed

section \<open>Dates of the window as the storage reads them\<close>

lemma isWeekday_TimeClip:
  "isWeekday (TimeClip y) \<longleftrightarrow> \<bar>y\<bar> \<le> 100000000 \<and> 1 \<le> WeekDay y \<and> WeekDay y \<le> 5"
  by (simp add: isWeekday_def getUTCDay_def TimeClip_def)

lemma filter_weekdays:
  "filter isWeekday (map (\<lambda>i. TimeClip (t + i)) js) =
     map Some (filter (\<lambda>x. \<bar>x\<bar> \<le> 100000000 \<and> 1 \<le> WeekDay x \<and> WeekDay x \<le> 5)
                (map (\<lambda>i. t + i) js))"
proof (induction js)
  case Nil
  show ?case by simp
next
  case (Cons j js)
  have c: "\<bar>t + j\<bar> \<le> 100000000 \<Longrightarrow> TimeClip (t + j) = Some (t + j)"
    by (simp add: TimeClip_def)
  show ?case
    using Cons c by (auto simp: isWeekday_TimeClip)
qed

lemma rollingWindow_days:
  assumes "Date_parse (start @ ''T00:00:00Z'') = Some t"
  shows "rollingWindow start (Some n) = map (\<lambda>x. toISODate (Some x)) (window_days t n)"
proof -
  have "raw_scan (Some t) n = map (\<lambda>i. TimeClip (t + i)) [0..n - 1]"
    by (simp add: raw_scan_def scan_day_Some)
  then show ?thesis
    by (simp add: rollingWindow_eq assms filter_weekdays window_days_def comp_def)
qed

lemma window_days_range:
  "x \<in> set (window_days t n) \<Longrightarrow>
     t \<le> x \<and> x < t + n \<and> \<bar>x\<bar> \<le> 100000000 \<and> 1 \<le> WeekDay x \<and> WeekDay x \<le> 5"
  by (auto simp: window_days_def)

lemma window_days_sorted: "sorted (window_days t n)"
proof -
  have "sorted (map (\<lambda>i. t + i) [0..n - 1])"
    by (rule sorted_map_mono) (simp_all add: mono_on_def)
  hence "sorted (map (\<lambda>x. x) (filter (\<lambda>x. \<bar>x\<bar> \<le> 100000000 \<and> 1 \<le> WeekDay x \<and> WeekDay x \<le> 5)
      (map (\<lambda>i. t + i) [0..n - 1])))"
    by (intro sorted_filter) simp
  then show ?thesis by (simp add: window_days_def)
qed

lemma sorted_hd_last:
  fixes xs :: "int list"
  assumes "sorted xs" "x \<in> set xs"
  shows "hd xs \<le> x \<and> x \<le> last xs"
proof -
  from assms(2) have ne: "xs \<noteq> []" by auto
  then obtain a ys where c: "xs = a # ys" by (cases xs) auto
  with assms have lo: "hd xs \<le> x" by auto
  from ne have "xs = butlast xs @ [last xs]" by simp
  then obtain zs where s: "xs = zs @ [last xs]" by metis
  with assms(1) have "\<forall>y \<in> set zs. y \<le> last xs"
    by (metis sorted_append list.set_intros(1))
  with s assms(2) have "x \<le> last xs"
    by (metis Un_iff empty_iff insert_iff list.set(1) list.simps(15) order_refl set_append)
  with lo show ?thesis by simp
qed

text \<open>Evaluations used by the examples.\<close>

lemma eval_date_in: "date_in ''2024-06-03'' = Some 19877"
  by code_simp

lemma eval_slot_check: "slot_check ''A''" "slot_check ''B''" "\<not> slot_check ''C''"
  by (simp_all add: slot_check_def)

lemma eval_slot_keys: "set SLOT_KEYS = {''C'', ''A'', ''B''}"
  by (auto simp: SLOT_KEYS_def SLOT_MAP_def)

lemma eval_reaches:
  "slot \<in> {''C'', ''A'', ''B''} \<Longrightarrow> reaches_tx 1717372800000 (req_juan slot)"
  by (simp add: reaches_tx_def req_juan_def falsy_def text_of_def eval_slot_keys eval_today
      eval_window_14)

lemma eval_reaches_earlier:
  "slot \<in> {''A'', ''B''} \<Longrightarrow> reaches_tx_earlier 1717372800000 (req_juan slot)"
  by (simp add: reaches_tx_earlier_def req_juan_def falsy_def text_of_def eval_today
      eval_window_14)

lemma eval_empty_db: "constraints_hold empty_db" "bookings empty_db = []"
  "slot_overrides empty_db = []" "bookings_id_seq empty_db = 1"
  "slot_overrides_id_seq empty_db = 1"
  by (simp_all add: constraints_hold_def empty_db_def)

lemma eval_req_juan:
  "text_of (rq_date (req_juan slot)) = ''2024-06-03''" "text_of (rq_slot (req_juan slot)) = slot"
  "text_of (rq_full_name (req_juan slot)) = ''Juan''" "text_of (rq_phone (req_juan slot)) = ''0''"
  "text_of (rq_instagram (req_juan slot)) = ''admin''" "rq_slot (req_juan slot) = Some slot"
  by (simp_all add: req_juan_def text_of_def)

lemma eval_book_A:
  "book 1717372800000 (req_juan ''A'') empty_db = (Book_409 (Sql undefined_column), empty_db)"
proof -
  have r: "reaches_tx 1717372800000 (req_juan ''A'')" by (simp add: eval_reaches)
  have d: "date_in (text_of (rq_date (req_juan ''A''))) = Some 19877"
    by (simp add: eval_req_juan(1) eval_date_in)
  from book_outcome [OF r eval_empty_db(1) d] show ?thesis
    by (simp add: eval_empty_db)
qed

lemma eval_book_earlier_A:
  "book_earlier 1717372800000 (req_juan ''A'') empty_db = (Book_ok 1 1717372800000, db_juan_A)"
proof -
  have r: "reaches_tx_earlier 1717372800000 (req_juan ''A'')" by (simp add: eval_reaches_earlier)
  have d: "date_in (text_of (rq_date (req_juan ''A''))) = Some 19877"
    by (simp add: eval_req_juan(1) eval_date_in)
  have n: "CHR 0x00 \<notin> set (text_of (rq_full_name (req_juan ''A'')))
           \<union> set (text_of (rq_phone (req_juan ''A''))) \<union> set (text_of (rq_instagram (req_juan ''A'')))"
    by (simp add: eval_req_juan(1-5))
  have "book_earlier 1717372800000 (req_juan ''A'') empty_db =
     (Book_ok (bookings_id_seq empty_db) 1717372800000,
      empty_db\<lparr>bookings_id_seq := bookings_id_seq empty_db + 1,
        bookings := bookings empty_db @
          [new_booking empty_db 1717372800000 (text_of (rq_full_name (req_juan ''A'')))
             (text_of (rq_phone (req_juan ''A''))) (text_of (rq_instagram (req_juan ''A'')))
             19877 (text_of (rq_slot (req_juan ''A'')))]\<rparr>)"
    by (rule book_earlier_free [OF r eval_empty_db(1) d _ _ n])
      (simp_all add: eval_empty_db int4_max_def)
  then show ?thesis
    by (simp add: eval_req_juan(1-5) new_booking_def db_juan_A_def empty_db_def)
qed

lemma reachable_db_juan_A: "reachable db_juan_A"
  using r_book_earlier [OF r_init, of 1717372800000 "req_juan ''A''"]
  by (simp add: eval_book_earlier_A)

text \<open>
  Claim C1. On the empty tables, a request for slot A on a date of the window (the clock
  at 2024-06-03) passes the validation and the window check of the later revision, and
  is answered with 409: the \<open>INSERT\<close> of the transaction names the column \<open>email\<close>, which
  the table of schema.sql does not have, and the \<open>catch\<close> of the handler answers the
  error with a conflict, although no booking and no override exists for the date and the
  slot. The failed transaction stores nothing. The same request to the earlier
  revision, whose \<open>INSERT\<close> names the columns of the table only, books the slot.
\<close>

theorem book_free_slot_conflict:
  "reaches_tx 1717372800000 (req_juan ''A'')
   \<and> bookings empty_db = [] \<and> slot_overrides empty_db = []
   \<and> book 1717372800000 (req_juan ''A'') empty_db = (Book_409 (Sql undefined_column), empty_db)
   \<and> book_earlier 1717372800000 (req_juan ''A'') empty_db = (Book_ok 1 1717372800000, db_juan_A)"
  by (simp add: eval_reaches eval_empty_db eval_book_A eval_book_earlier_A)

section \<open>The slot endpoint\<close>

lemma admin_slot_valid:
  assumes "sr_is_open sr = Some io" "\<not> falsy (sr_date sr)" "text_of (sr_slot sr) \<in> set SLOT_KEYS"
  shows "admin_slot now sr s =
     (case withTx (admin_slot_tx now (text_of (sr_date sr)) (text_of (sr_slot sr)) io) s of
        (Inr result, s') \<Rightarrow> (Slot_ok result, s')
      | (Inl e, s') \<Rightarrow> (Slot_500, s'))"
  using assms by (simp add: admin_slot_def)

lemma admin_slot_tx_error:
  assumes "sr_is_open sr = Some io" "\<not> falsy (sr_date sr)" "text_of (sr_slot sr) \<in> set SLOT_KEYS"
    and "admin_slot_tx now (text_of (sr_date sr)) (text_of (sr_slot sr)) io s = (Inl e, t)"
  shows "fst (admin_slot now sr s) = Slot_500 \<and> same_tables s (snd (admin_slot now sr s))"
  using assms(4) by (simp add: admin_slot_valid [OF assms(1-3)] withTx_def same_tables_def)

lemma admin_slot_tx_success:
  assumes "sr_is_open sr = Some io" "\<not> falsy (sr_date sr)" "text_of (sr_slot sr) \<in> set SLOT_KEYS"
    and "admin_slot_tx now (text_of (sr_date sr)) (text_of (sr_slot sr)) io s = (Inr res, t)"
  shows "admin_slot now sr s = (Slot_ok res, t)"
  using assms(4) by (simp add: admin_slot_valid [OF assms(1-3)] withTx_def)

lemma admin_slot_check_fails:
  assumes "sr_is_open sr = Some io" "\<not> falsy (sr_date sr)" "text_of (sr_slot sr) \<in> set SLOT_KEYS"
    and "\<not> slot_check (text_of (sr_slot sr))"
  shows "fst (admin_slot now sr s) = Slot_500 \<and> same_tables s (snd (admin_slot now sr s))"
proof -
  from upsert_override_check [OF assms(4), of s now "text_of (sr_date sr)" io]
  obtain e s1 where "upsert_override s now (text_of (sr_date sr)) (text_of (sr_slot sr)) io = (Inl e, s1)"
    by blast
  hence "admin_slot_tx now (text_of (sr_date sr)) (text_of (sr_slot sr)) io s = (Inl (Sql e), s1)"
    by (simp add: admin_slot_tx_def)
  from admin_slot_tx_error [OF assms(1-3) this] show ?thesis .
qed

text \<open>
  The transaction of the slot endpoint, for a date and slot the storage accepts. Opening
  deletes the bookings of the date and slot that carry the phone and the instagram of the
  sentinel. Closing finds a booking, or fails at the \<open>INSERT\<close> of the sentinel.
\<close>

lemma admin_slot_tx_open:
  assumes "date_in date = Some d" "slot_check slot" "slot_overrides_id_seq s \<le> int4_max"
  shows "admin_slot_tx now date slot True s =
     (Inr (Opened (\<exists>b \<in> set (bookings s). b_date b = d \<and> b_slot b = slot
                      \<and> b_phone b = ADMIN_PHONE \<and> b_instagram b = ADMIN_IG)),
      (set_override s now d slot True)
        \<lparr>bookings := filter (\<lambda>b. \<not> (b_date b = d \<and> b_slot b = slot
                      \<and> b_phone b = ADMIN_PHONE \<and> b_instagram b = ADMIN_IG)) (bookings s)\<rparr>)"
  using assms
  by (auto simp: admin_slot_tx_def upsert_override_ok delete_booking_matching_def Let_def
      set_override_bookings filter_empty_conv)

lemma admin_slot_tx_close:
  assumes "date_in date = Some d" "slot_check slot" "slot_overrides_id_seq s \<le> int4_max"
  shows "admin_slot_tx now date slot False s =
     (if \<exists>b \<in> set (bookings s). b_date b = d \<and> b_slot b = slot
      then (Inr (Closed False None), set_override s now d slot False)
      else (Inl (Sql undefined_column), set_override s now d slot False))"
proof (cases "\<exists>b \<in> set (bookings s). b_date b = d \<and> b_slot b = slot")
  case True
  hence "filter (\<lambda>b. b_date b = d \<and> b_slot b = slot) (bookings s) \<noteq> []"
    by (simp add: filter_empty_conv)
  with True assms show ?thesis
    by (simp add: admin_slot_tx_def upsert_override_ok select_booking_for_update_def
        set_override_bookings)
next
  case False
  hence f: "filter (\<lambda>b. b_date b = d \<and> b_slot b = slot) (bookings s) = []"
    by (simp add: filter_empty_conv)
  show ?thesis
    using False assms
    by (simp add: admin_slot_tx_def upsert_override_ok select_booking_for_update_def
        set_override_bookings f insert_booking_email)
qed

text \<open>
  On the tables of schema.sql no call of the slot endpoint of the later revision adds a
  booking: closing a slot never stores a sentinel.
\<close>

lemma admin_slot_tx_no_insert:
  assumes "admin_slot_tx now date slot io s = (Inr res, s')"
  shows "set (bookings s') \<subseteq> set (bookings s) \<and> res \<noteq> Closed True i"
proof -
  from assms obtain u s1 where u: "upsert_override s now date slot io = (Inr u, s1)"
    by (auto simp: admin_slot_tx_def split: prod.splits sum.splits)
  from upsert_override_Inr [OF u] have b: "bookings s1 = bookings s"
    by (auto simp: set_override_bookings)
  show ?thesis
  proof (cases io)
    case True
    with assms u b show ?thesis
      by (auto simp: admin_slot_tx_def delete_booking_matching_def Let_def
          split: option.splits)
  next
    case False
    with assms u b show ?thesis
      by (auto simp: admin_slot_tx_def insert_booking_email split: sum.splits if_splits)
  qed
qed

lemma stored_slots:
  assumes "constraints_hold s"
  shows "\<forall>b \<in> set (bookings s). b_slot b = ''A'' \<or> b_slot b = ''B''"
    and "\<forall>ov \<in> set (slot_overrides s). o_slot ov = ''A'' \<or> o_slot ov = ''B''"
  using assms by (auto simp: constraints_hold_def list_all_iff slot_check_def)

lemma book_slot_C:
  assumes "constraints_hold s" "reaches_tx now rq" "rq_slot rq = Some ''C''"
  shows "(\<exists>e. fst (book now rq s) = Book_409 (Sql e)
              \<and> (date_in (text_of (rq_date rq)) \<noteq> None \<longrightarrow> e = undefined_column))
         \<and> same_tables s (snd (book now rq s))"
proof (cases "date_in (text_of (rq_date rq))")
  case None
  with book_outcome_invalid_date [OF assms(2) None, of s] show ?thesis
    by (simp add: same_tables_def)
next
  case (Some d)
  have t: "text_of (rq_slot rq) = ''C''" using assms(3) by (simp add: text_of_def)
  have nb: "\<not> (\<exists>b \<in> set (bookings s). b_date b = d \<and> b_slot b = text_of (rq_slot rq))"
    using stored_slots(1) [OF assms(1)] unfolding t by auto
  have no: "\<not> (\<exists>ov \<in> set (slot_overrides s). o_date ov = d \<and> o_slot ov = text_of (rq_slot rq)
            \<and> \<not> o_is_open ov)"
    using stored_slots(2) [OF assms(1)] unfolding t by auto
  have "book now rq s = (Book_409 (Sql undefined_column), s)"
    unfolding book_outcome [OF assms(2,1) Some] by (simp only: nb no if_False)
  with Some show ?thesis by (simp add: same_tables_def)
qed

lemma admin_slot_C:
  assumes "\<not> falsy (sr_date sr)" "sr_slot sr = Some ''C''" "sr_is_open sr = Some io"
  shows "fst (admin_slot now sr s) = Slot_500 \<and> same_tables s (snd (admin_slot now sr s))"
proof -
  have t: "text_of (sr_slot sr) = ''C''" using assms(2) by (simp add: text_of_def)
  have k: "text_of (sr_slot sr) \<in> set SLOT_KEYS" unfolding t by (simp add: SLOT_KEYS_def SLOT_MAP_def)
  have nc: "\<not> slot_check (text_of (sr_slot sr))" unfolding t by (simp add: slot_check_def)
  from admin_slot_check_fails [OF assms(3,1) k nc] show ?thesis .
qed

text \<open>
  Claim C9. In every reachable state every row of \<open>bookings\<close> and of \<open>slot_overrides\<close>
  has slot A or B, although C is among the slot keys the server validates against.
  Every \<open>/book\<close> request for slot C that reaches the transaction fails at the storage
  layer and is rolled back (whenever its date is read as a date, it is the \<open>INSERT\<close> that
  fails: the statement is rejected for its column \<open>email\<close> before the \<open>CHECK\<close> on the slot is
  reached), and every valid request to the slot endpoint for slot C fails at the \<open>CHECK\<close>
  of \<open>slot_overrides\<close> and is rolled back: both tables stay as they were.
\<close>

theorem slot_C_never_stored:
  assumes "reachable s"
  shows "(\<forall>b \<in> set (bookings s). b_slot b = ''A'' \<or> b_slot b = ''B'')
       \<and> (\<forall>ov \<in> set (slot_overrides s). o_slot ov = ''A'' \<or> o_slot ov = ''B'')
       \<and> ''C'' \<in> set SLOT_KEYS
       \<and> (\<forall>now rq. reaches_tx now rq \<and> rq_slot rq = Some ''C'' \<longrightarrow>
            (\<exists>e. fst (book now rq s) = Book_409 (Sql e)
                 \<and> (date_in (text_of (rq_date rq)) \<noteq> None \<longrightarrow> e = undefined_column))
            \<and> bookings (snd (book now rq s)) = bookings s
            \<and> slot_overrides (snd (book now rq s)) = slot_overrides s)
       \<and> (\<forall>now sr io. \<not> falsy (sr_date sr) \<and> sr_slot sr = Some ''C'' \<and> sr_is_open sr = Some io \<longrightarrow>
            fst (admin_slot now sr s) = Slot_500
            \<and> bookings (snd (admin_slot now sr s)) = bookings s
            \<and> slot_overrides (snd (admin_slot now sr s)) = slot_overrides s)"
proof -
  from reachable_keeps [OF assms] have c: "constraints_hold s" by simp
  have k: "''C'' \<in> set SLOT_KEYS" by (simp add: SLOT_KEYS_def SLOT_MAP_def)
  show ?thesis
    using stored_slots [OF c] k book_slot_C [OF c] admin_slot_C [where s = s]
    by (simp add: same_tables_def)
qed

theorem slot_C_never_stored_witness:
  "map b_slot (bookings db_juan_A) = [''A'']
   \<and> fst (book 1717372800000 (req_juan ''C'') db_juan_A) = Book_409 (Sql undefined_column)
   \<and> bookings (snd (book 1717372800000 (req_juan ''C'') db_juan_A)) = bookings db_juan_A
   \<and> fst (admin_slot 1717372800000 (req_slot ''C'' False) db_juan_A) = Slot_500
   \<and> bookings (snd (admin_slot 1717372800000 (req_slot ''C'' False) db_juan_A)) = bookings db_juan_A"
proof -
  note w = slot_C_never_stored [OF reachable_db_juan_A]
  have r: "reaches_tx 1717372800000 (req_juan ''C'') \<and> rq_slot (req_juan ''C'') = Some ''C''"
    by (simp add: eval_reaches) (simp add: req_juan_def)
  have d: "date_in (text_of (rq_date (req_juan ''C''))) \<noteq> None"
    by (simp add: req_juan_def text_of_def eval_date_in)
  have q: "\<not> falsy (sr_date (req_slot ''C'' False)) \<and> sr_slot (req_slot ''C'' False) = Some ''C''
      \<and> sr_is_open (req_slot ''C'' False) = Some False"
    by (simp add: req_slot_def falsy_def)
  from w have "\<forall>b \<in> set (bookings db_juan_A). b_slot b = ''A'' \<or> b_slot b = ''B''" by blast
  hence "map b_slot (bookings db_juan_A) = [''A'']" by (simp add: db_juan_A_def)
  moreover from w r d
  have "fst (book 1717372800000 (req_juan ''C'') db_juan_A) = Book_409 (Sql undefined_column)
      \<and> bookings (snd (book 1717372800000 (req_juan ''C'') db_juan_A)) = bookings db_juan_A"
    by blast
  moreover from w q
  have "fst (admin_slot 1717372800000 (req_slot ''C'' False) db_juan_A) = Slot_500
      \<and> bookings (snd (admin_slot 1717372800000 (req_slot ''C'' False) db_juan_A)) = bookings db_juan_A"
    by blast
  ultimately show ?thesis by blast
qed

lemma eval_req_slot:
  "sr_is_open (req_slot slot io) = Some io" "\<not> falsy (sr_date (req_slot slot io))"
  "text_of (sr_date (req_slot slot io)) = ''2024-06-03''"
  "text_of (sr_slot (req_slot slot io)) = slot"
  by (simp_all add: req_slot_def falsy_def text_of_def)

lemma eval_reopen_juan:
  "admin_slot 1717372800000 (req_slot ''A'' True) db_juan_A = (Slot_ok (Opened True), db_reopened)"
proof -
  have k: "text_of (sr_slot (req_slot ''A'' True)) \<in> set SLOT_KEYS"
    by (simp add: eval_req_slot eval_slot_keys)
  have q: "slot_overrides_id_seq db_juan_A \<le> int4_max"
    by (simp add: db_juan_A_def int4_max_def)
  have tx: "admin_slot_tx 1717372800000 ''2024-06-03'' ''A'' True db_juan_A =
     (Inr (Opened True), db_reopened)"
    unfolding admin_slot_tx_open [OF eval_date_in eval_slot_check(1) q]
    by (simp add: db_juan_A_def db_reopened_def set_override_def ADMIN_PHONE_def ADMIN_IG_def)
  from admin_slot_tx_success [OF eval_req_slot(1,2) k, of 1717372800000 db_juan_A] tx
  show ?thesis by (simp add: eval_req_slot)
qed

text \<open>
  Claim C4. A customer books slot A of 2024-06-03 under the name Juan, with the phone
  \<open>0\<close> and the instagram \<open>admin\<close>, through \<open>/book\<close> of the earlier revision. The slot
  endpoint of the later revision, called with \<open>is_open = true\<close> for that date and slot,
  deletes the booking and reports a removed block: its \<open>DELETE\<close> compares the phone and
  the instagram with the sentinel's and leaves the name out, so that this booking, whose
  name is not the sentinel's \<open>Administrador\<close>, is taken for the sentinel.
\<close>

theorem reopen_deletes_customer_booking:
  "book_earlier 1717372800000 (req_juan ''A'') empty_db = (Book_ok 1 1717372800000, db_juan_A)
   \<and> map b_full_name (bookings db_juan_A) = [''Juan'']
   \<and> ''Juan'' \<noteq> ADMIN_NAME
   \<and> admin_slot 1717372800000 (req_slot ''A'' True) db_juan_A = (Slot_ok (Opened True), db_reopened)
   \<and> bookings db_reopened = []"
  by (simp add: eval_book_earlier_A eval_reopen_juan)
    (simp add: db_juan_A_def db_reopened_def ADMIN_NAME_def)

lemma eval_close_A:
  "admin_slot now (req_slot ''A'' False) (db_drawn n) =
     (if 1 + n \<le> int4_max then (Slot_500, db_drawn (n + 1)) else (Slot_500, db_drawn n))"
proof -
  have k: "text_of (sr_slot (req_slot ''A'' False)) \<in> set SLOT_KEYS"
    by (simp add: eval_req_slot eval_slot_keys)
  have nb: "\<not> (\<exists>b \<in> set (bookings (db_drawn n)). b_date b = 19877 \<and> b_slot b = ''A'')"
    by (simp add: db_drawn_def)
  show ?thesis
  proof (cases "1 + n \<le> int4_max")
    case True
    hence q: "slot_overrides_id_seq (db_drawn n) \<le> int4_max" by (simp add: db_drawn_def)
    have "admin_slot_tx now ''2024-06-03'' ''A'' False (db_drawn n) =
        (Inl (Sql undefined_column), set_override (db_drawn n) now 19877 ''A'' False)"
      unfolding admin_slot_tx_close [OF eval_date_in eval_slot_check(1) q]
      by (simp only: nb if_False)
    then show ?thesis
      using True
      by (simp add: admin_slot_valid [OF eval_req_slot(1,2) k] eval_req_slot withTx_def
          set_override_def db_drawn_def)
  next
    case False
    hence "upsert_override (db_drawn n) now ''2024-06-03'' ''A'' False =
        (Inl sequence_generator_limit_exceeded, db_drawn n)"
      by (simp add: upsert_override_def eval_date_in db_drawn_def)
    hence "admin_slot_tx now ''2024-06-03'' ''A'' False (db_drawn n) =
        (Inl (Sql sequence_generator_limit_exceeded), db_drawn n)"
      by (simp add: admin_slot_tx_def)
    then show ?thesis
      using False
      by (simp add: admin_slot_valid [OF eval_req_slot(1,2) k] eval_req_slot withTx_def
          db_drawn_def)
  qed
qed

lemma eval_db_drawn: "db_drawn 0 = empty_db" "bookings (db_drawn n) = []"
  "slot_overrides (db_drawn n) = []"
  by (simp_all add: db_drawn_def empty_db_def)

text \<open>
  Claim C6. On the empty tables, slot A of 2024-06-03 is closed twice in a row through
  the slot endpoint of the later revision. Each call stores the override and then fails
  at the \<open>INSERT\<close> of the sentinel, which names the column \<open>email\<close> that the table of
  schema.sql does not have; the transaction is rolled back and the call is answered with
  500. After the two calls no booking exists for the date and the slot, and no override:
  only the sequence of \<open>slot_overrides\<close> has moved.
\<close>

theorem close_twice_no_sentinel:
  "bookings empty_db = []
   \<and> admin_slot 1717372800000 (req_slot ''A'' False) empty_db = (Slot_500, db_drawn 1)
   \<and> admin_slot 1717372900000 (req_slot ''A'' False) (db_drawn 1) = (Slot_500, db_drawn 2)
   \<and> bookings (db_drawn 2) = [] \<and> slot_overrides (db_drawn 2) = []"
  using eval_close_A [of 1717372800000 0] eval_close_A [of 1717372900000 1]
  by (simp add: eval_db_drawn eval_empty_db int4_max_def)

section \<open>The availability view\<close>

lemma slot_key_inj:
  assumes "slot_key d1 s1 = slot_key d2 s2" "length s1 = length s2"
  shows "d1 = d2 \<and> s1 = s2"
proof -
  from assms(1) have e: "d1 @ (CHR ''|'' # s1) = d2 @ (CHR ''|'' # s2)"
    by (simp add: slot_key_def)
  hence "length (d1 @ (CHR ''|'' # s1)) = length (d2 @ (CHR ''|'' # s2))" by simp
  with assms(2) have "length d1 = length d2" by simp
  with e show ?thesis by simp
qed

lemma slot_order: "filter (\<lambda>k. k \<in> set SLOT_KEYS) SLOT_ORDER = [''C'', ''A'', ''B'']"
  by (simp add: SLOT_ORDER_def SLOT_KEYS_def SLOT_MAP_def)

lemma slot_order_keys: "set SLOT_ORDER = set SLOT_KEYS" "SLOT_ORDER = [''C'', ''A'', ''B'']"
  by (auto simp: SLOT_ORDER_def SLOT_KEYS_def SLOT_MAP_def)

text \<open>The rows of the two revisions are instances of one merge.\<close>

lemma availability_row_merged:
  "availability_row bs om date =
     \<lparr>v_date = date, v_slots = merged_slots [''C'', ''A'', ''B''] slot_label bs om date\<rparr>"
  by (simp add: availability_row_def merged_slots_def Let_def slot_order)

lemma availability_row_earlier_merged:
  "availability_row_earlier bs om date =
     \<lparr>v_date = date, v_slots = merged_slots [''A'', ''B''] slot_label_earlier bs om date\<rparr>"
  by (simp add: availability_row_earlier_def merged_slots_def Let_def)

lemma merged_slots_member:
  assumes "(sl, sv) \<in> set (merged_slots order label bs om date)"
  shows "sl \<in> set order"
    and "sv_booked sv = (slot_key date sl \<in> bs)"
    and "sv_open sv = (case om (slot_key date sl) of None \<Rightarrow> \<not> sv_booked sv
                         | Some f \<Rightarrow> f \<and> \<not> sv_booked sv)"
    and "sv_label sv = label sl"
  using assms by (auto simp: merged_slots_def split: option.splits)

lemma merged_slots_order: "map fst (merged_slots order label bs om date) = order"
  by (simp add: merged_slots_def comp_def)

text \<open>The text that the storage prints for a day names that day only.\<close>

lemma date_out_inj:
  assumes "1 \<le> YearFromDay x" "YearFromDay x \<le> 5874897"
    and "1 \<le> YearFromDay y" "YearFromDay y \<le> 5874897"
    and "date_out x = date_out y"
  shows "x = y"
proof -
  have "Some x = date_in (date_out x)" using date_in_date_out [OF assms(1,2)] by simp
  also have "\<dots> = date_in (date_out y)" by (simp only: assms(5))
  also have "\<dots> = Some y" by (rule date_in_date_out [OF assms(3,4)])
  finally show ?thesis by simp
qed

lemma year_between:
  assumes "1 \<le> YearFromDay l" "YearFromDay h \<le> 5874897" "l \<le> x" "x \<le> h"
  shows "1 \<le> YearFromDay x \<and> YearFromDay x \<le> 5874897"
  using YearFromDay_mono [OF assms(3)] YearFromDay_mono [OF assms(4)] assms(1,2) by simp

text \<open>The window of a request that is not empty: its start, its length and its days.\<close>

lemma availability_window_days:
  assumes "availability_window now qstart qdays \<noteq> []"
  shows "\<exists>t n. availability_window now qstart qdays =
            map (\<lambda>x. toISODate (Some x)) (window_days t n)"
proof -
  let ?start = "or_default qstart (toISODate (todayCST now))"
  let ?days = "Math_min (parseInt (or_default qdays ''14'')) 31"
  have w: "availability_window now qstart qdays = rollingWindow ?start ?days"
    by (simp add: availability_window_def)
  from assms w obtain n where n: "?days = Some n"
    by (cases ?days) (simp_all add: rollingWindow_NaN)
  from assms w obtain t where t: "Date_parse (?start @ ''T00:00:00Z'') = Some t"
    by (cases "Date_parse (?start @ ''T00:00:00Z'')") (simp_all add: rollingWindow_invalid)
  from rollingWindow_days [OF t, of n] w n show ?thesis by auto
qed

text \<open>
  When the two range queries of a request succeed, every date of the window is read by
  the storage as the day it names, a day of the year 100 or later that lies within the
  range of the queries.
\<close>

lemma window_in_range:
  assumes "xs = window_days t n" "xs \<noteq> []"
    and "date_in (toISODate (Some (hd xs))) = Some l"
    and "date_in (toISODate (Some (last xs))) = Some h"
    and "x \<in> set xs"
  shows "l \<le> x \<and> x \<le> h \<and> 1 \<le> YearFromDay l \<and> YearFromDay h \<le> 5874897
         \<and> 100 \<le> YearFromDay x \<and> date_in (toISODate (Some x)) = Some x"
proof -
  from date_in_toISODate_year [OF assms(3)]
  have l: "100 \<le> YearFromDay (hd xs)" "l = hd xs" by simp_all
  from date_in_toISODate_year [OF assms(4)] have h: "h = last xs" by simp
  have "sorted xs" unfolding assms(1) by (rule window_days_sorted)
  from sorted_hd_last [OF this assms(5)] have b: "hd xs \<le> x" "x \<le> last xs" by simp_all
  from assms(2) have "last xs \<in> set xs" by simp
  hence "\<bar>last xs\<bar> \<le> 100000000" unfolding assms(1) by (auto dest: window_days_range)
  from clipped_year [OF this] have hy: "YearFromDay (last xs) \<le> 5874897" by simp
  have y: "100 \<le> YearFromDay x" "YearFromDay x \<le> 5874897"
    using YearFromDay_mono [OF b(1)] YearFromDay_mono [OF b(2)] l(1) hy by simp_all
  from date_in_toISODate [OF y] l h b y hy show ?thesis by simp
qed

lemma availability_unfold:
  assumes "availability now qstart qdays s = Inr view"
    and "availability_window now qstart qdays \<noteq> []"
  shows "\<exists>l h. date_in (hd (availability_window now qstart qdays)) = Some l
            \<and> date_in (last (availability_window now qstart qdays)) = Some h
            \<and> view = map (\<lambda>date. \<lparr>v_date = date,
                          v_slots = merged_slots [''C'', ''A'', ''B''] slot_label
                                      (booked_keys s l h) (override_map s l h) date\<rparr>)
                        (availability_window now qstart qdays)"
  using assms
  by (auto simp: availability_def select_bookings_between_def select_overrides_between_def
      booked_keys_def override_map_def availability_row_merged Let_def split: option.splits)

lemma availability_earlier_unfold:
  assumes "availability_earlier now qstart qdays s = Inr view"
    and "availability_window now qstart qdays \<noteq> []"
  shows "\<exists>l h. date_in (hd (availability_window now qstart qdays)) = Some l
            \<and> date_in (last (availability_window now qstart qdays)) = Some h
            \<and> view = map (\<lambda>date. \<lparr>v_date = date,
                          v_slots = merged_slots [''A'', ''B''] slot_label_earlier
                                      (booked_keys s l h) (override_map s l h) date\<rparr>)
                        (availability_window now qstart qdays)"
  using assms
  by (auto simp: availability_earlier_def select_bookings_between_def
      select_overrides_between_def booked_keys_def override_map_def
      availability_row_earlier_merged Let_def split: option.splits)

lemma stored_slot_lengths:
  assumes "constraints_hold s"
  shows "b \<in> set (bookings s) \<Longrightarrow> length (b_slot b) = 1"
    and "ov \<in> set (slot_overrides s) \<Longrightarrow> length (o_slot ov) = 1"
  using stored_slots [OF assms] by auto

text \<open>The keys built from the rows of the tables.\<close>

lemma booked_keys_member:
  "k \<in> booked_keys s l h \<longleftrightarrow>
     (\<exists>b \<in> set (bookings s). l \<le> b_date b \<and> b_date b \<le> h
        \<and> k = slot_key (date_out (b_date b)) (b_slot b))"
  by (auto simp: booked_keys_def)

lemma override_map_None:
  "override_map s l h k = None \<longleftrightarrow>
     \<not> (\<exists>ov \<in> set (slot_overrides s). l \<le> o_date ov \<and> o_date ov \<le> h
          \<and> k = slot_key (date_out (o_date ov)) (o_slot ov))"
  by (force simp: override_map_def Map_of_entries_def map_of_eq_None_iff image_iff)

lemma override_map_Some:
  assumes "override_map s l h k = Some v"
  shows "\<exists>ov \<in> set (slot_overrides s). l \<le> o_date ov \<and> o_date ov \<le> h
          \<and> k = slot_key (date_out (o_date ov)) (o_slot ov) \<and> o_is_open ov = v"
proof -
  from assms have "(k, v) \<in> set (rev (map (\<lambda>(d, sl, io). (slot_key d sl, io))
        (map (\<lambda>ov. (date_out (o_date ov), o_slot ov, o_is_open ov))
           (filter (\<lambda>ov. o_date ov \<ge> l \<and> o_date ov \<le> h) (slot_overrides s)))))"
    unfolding override_map_def Map_of_entries_def by (rule map_of_SomeD)
  then show ?thesis by auto
qed

lemma booked_keys_iff:
  assumes "constraints_hold s" "1 \<le> YearFromDay l" "YearFromDay h \<le> 5874897"
    and "l \<le> x" "x \<le> h" "length sl = 1"
  shows "slot_key (date_out x) sl \<in> booked_keys s l h
           \<longleftrightarrow> (\<exists>b \<in> set (bookings s). b_date b = x \<and> b_slot b = sl)"
proof
  assume "slot_key (date_out x) sl \<in> booked_keys s l h"
  then obtain b where b: "b \<in> set (bookings s)" "l \<le> b_date b" "b_date b \<le> h"
      "slot_key (date_out x) sl = slot_key (date_out (b_date b)) (b_slot b)"
    unfolding booked_keys_member by blast
  from stored_slot_lengths(1) [OF assms(1) b(1)] have "length (b_slot b) = 1" .
  with slot_key_inj [OF b(4)] assms(6) have e: "date_out x = date_out (b_date b)" "sl = b_slot b"
    by simp_all
  from year_between [OF assms(2,3) b(2,3)] year_between [OF assms(2,3,4,5)]
  have "x = b_date b" by (intro date_out_inj [OF _ _ _ _ e(1)]) simp_all
  with b(1) e(2) show "\<exists>b \<in> set (bookings s). b_date b = x \<and> b_slot b = sl" by auto
next
  assume "\<exists>b \<in> set (bookings s). b_date b = x \<and> b_slot b = sl"
  then obtain b where "b \<in> set (bookings s)" "b_date b = x" "b_slot b = sl" by blast
  with assms(4,5) show "slot_key (date_out x) sl \<in> booked_keys s l h"
    unfolding booked_keys_member by blast
qed

lemma override_unique:
  assumes "constraints_hold s" "ov \<in> set (slot_overrides s)" "ov' \<in> set (slot_overrides s)"
    and "o_date ov = o_date ov'" "o_slot ov = o_slot ov'"
  shows "ov = ov'"
proof -
  have "inj_on (\<lambda>ov. (o_date ov, o_slot ov)) (set (slot_overrides s))"
    using assms(1) by (simp add: constraints_hold_def distinct_map)
  with assms(2-5) show ?thesis by (auto dest: inj_onD)
qed

lemma override_map_cases:
  assumes "constraints_hold s" "1 \<le> YearFromDay l" "YearFromDay h \<le> 5874897"
    and "l \<le> x" "x \<le> h" "length sl = 1"
  shows "(\<not> (\<exists>ov \<in> set (slot_overrides s). o_date ov = x \<and> o_slot ov = sl)
            \<longrightarrow> override_map s l h (slot_key (date_out x) sl) = None)
       \<and> (\<forall>ov \<in> set (slot_overrides s). o_date ov = x \<and> o_slot ov = sl
            \<longrightarrow> override_map s l h (slot_key (date_out x) sl) = Some (o_is_open ov))"
proof -
  let ?k = "slot_key (date_out x) sl"
  have hit: "o_date ov = x \<and> o_slot ov = sl"
    if "ov \<in> set (slot_overrides s)" "l \<le> o_date ov" "o_date ov \<le> h"
      "?k = slot_key (date_out (o_date ov)) (o_slot ov)" for ov
  proof -
    from stored_slot_lengths(2) [OF assms(1) that(1)] have "length (o_slot ov) = 1" .
    with slot_key_inj [OF that(4)] assms(6)
    have e: "date_out x = date_out (o_date ov)" "sl = o_slot ov" by simp_all
    from year_between [OF assms(2,3) that(2,3)] year_between [OF assms(2,3,4,5)]
    have "x = o_date ov" by (intro date_out_inj [OF _ _ _ _ e(1)]) simp_all
    with e(2) show ?thesis by simp
  qed
  have a: "\<not> (\<exists>ov \<in> set (slot_overrides s). o_date ov = x \<and> o_slot ov = sl)
            \<longrightarrow> override_map s l h ?k = None"
    unfolding override_map_None using hit by blast
  have b: "\<forall>ov \<in> set (slot_overrides s). o_date ov = x \<and> o_slot ov = sl
            \<longrightarrow> override_map s l h ?k = Some (o_is_open ov)"
  proof (intro ballI impI)
    fix ov assume ov: "ov \<in> set (slot_overrides s)" "o_date ov = x \<and> o_slot ov = sl"
    with assms(4,5) have "override_map s l h ?k \<noteq> None"
      unfolding override_map_None by blast
    then obtain v where v: "override_map s l h ?k = Some v" by blast
    from override_map_Some [OF v] obtain ov' where ov': "ov' \<in> set (slot_overrides s)"
        "l \<le> o_date ov'" "o_date ov' \<le> h"
        "?k = slot_key (date_out (o_date ov')) (o_slot ov')" "o_is_open ov' = v"
      by blast
    from hit [OF ov'(1-4)] ov(2) have "o_date ov = o_date ov'" "o_slot ov = o_slot ov'"
      by simp_all
    from override_unique [OF assms(1) ov(1) ov'(1) this] v ov'(5)
    show "override_map s l h ?k = Some (o_is_open ov)" by simp
  qed
  from a b show ?thesis by blast
qed

text \<open>
  One slot of one row of the view, for a day within the range of the queries whose text
  is the text that the storage prints.
\<close>

lemma merged_slot_reflects:
  assumes "constraints_hold s" "1 \<le> YearFromDay l" "YearFromDay h \<le> 5874897"
    and "l \<le> x" "x \<le> h" "\<forall>sl \<in> set order. length sl = 1"
    and "(sl, sv) \<in> set (merged_slots order label (booked_keys s l h) (override_map s l h)
                             (date_out x))"
  shows "(sv_booked sv \<longleftrightarrow> (\<exists>b \<in> set (bookings s). b_date b = x \<and> b_slot b = sl))
       \<and> (\<not> (\<exists>ov \<in> set (slot_overrides s). o_date ov = x \<and> o_slot ov = sl)
             \<longrightarrow> sv_open sv = (\<not> sv_booked sv))
       \<and> (\<forall>ov \<in> set (slot_overrides s). o_date ov = x \<and> o_slot ov = sl
             \<longrightarrow> sv_open sv = (o_is_open ov \<and> \<not> sv_booked sv))
       \<and> (sv_booked sv \<longrightarrow> \<not> sv_open sv)"
proof -
  let ?k = "slot_key (date_out x) sl"
  note m = merged_slots_member [OF assms(7)]
  from m(1) assms(6) have len: "length sl = 1" by simp
  note bk = booked_keys_iff [OF assms(1-5) len]
  note om = override_map_cases [OF assms(1-5) len]
  have a: "sv_booked sv \<longleftrightarrow> (\<exists>b \<in> set (bookings s). b_date b = x \<and> b_slot b = sl)"
    using m(2) bk by simp
  have b: "\<not> (\<exists>ov \<in> set (slot_overrides s). o_date ov = x \<and> o_slot ov = sl)
             \<longrightarrow> sv_open sv = (\<not> sv_booked sv)"
    using om m(3) by simp
  have c: "\<forall>ov \<in> set (slot_overrides s). o_date ov = x \<and> o_slot ov = sl
             \<longrightarrow> sv_open sv = (o_is_open ov \<and> \<not> sv_booked sv)"
    using om m(3) by simp
  have d: "sv_booked sv \<longrightarrow> \<not> sv_open sv"
    using m(3) by (simp split: option.splits)
  from a b c d show ?thesis by blast
qed

text \<open>
  A date text shorter than the texts that the storage prints matches no key built from
  the rows: the slot is reported open and not booked, whatever the tables hold.
\<close>

lemma merged_slot_short:
  assumes "constraints_hold s" "length ds < 10" "\<forall>sl \<in> set order. length sl = 1"
    and "(sl, sv) \<in> set (merged_slots order label (booked_keys s l h) (override_map s l h) ds)"
  shows "sv_open sv \<and> \<not> sv_booked sv"
proof -
  let ?k = "slot_key ds sl"
  note m = merged_slots_member [OF assms(4)]
  from m(1) assms(3) have len: "length sl = 1" by simp
  have ne: "?k \<noteq> slot_key (date_out y) sl'" if "length sl' = 1" for y sl'
  proof
    assume "?k = slot_key (date_out y) sl'"
    from slot_key_inj [OF this] len that have "ds = date_out y" by simp
    with length_date_out [of y] assms(2) show False by simp
  qed
  have nb: "?k \<notin> booked_keys s l h"
  proof
    assume "?k \<in> booked_keys s l h"
    then obtain b where b: "b \<in> set (bookings s)"
        "?k = slot_key (date_out (b_date b)) (b_slot b)"
      unfolding booked_keys_member by blast
    from ne [OF stored_slot_lengths(1) [OF assms(1) b(1)]] b(2) show False by blast
  qed
  have no: "override_map s l h ?k = None"
  proof (rule ccontr)
    assume "override_map s l h ?k \<noteq> None"
    then obtain ov where ov: "ov \<in> set (slot_overrides s)"
        "?k = slot_key (date_out (o_date ov)) (o_slot ov)"
      unfolding override_map_None by blast
    from ne [OF stored_slot_lengths(2) [OF assms(1) ov(1)]] ov(2) show False by blast
  qed
  from m(2,3) nb no show ?thesis by simp
qed

text \<open>
  The view of a request that was answered, row by row: a row is the row of a day of the
  window, which the storage reads from its date; from the year 1000 on the row reflects
  the tables, and before the year 1000 every slot of the row is reported open and not
  booked.
\<close>

lemma merged_view_rows:
  assumes "constraints_hold s"
    and "date_in (hd (availability_window now qstart qdays)) = Some l"
    and "date_in (last (availability_window now qstart qdays)) = Some h"
    and "view = map (\<lambda>date. \<lparr>v_date = date,
                      v_slots = merged_slots order label
                                  (booked_keys s l h) (override_map s l h) date\<rparr>)
                    (availability_window now qstart qdays)"
    and "\<forall>sl \<in> set order. length sl = 1"
    and "row \<in> set view"
  obtains x where "v_date row = toISODate (Some x)" and "date_in (v_date row) = Some x"
    and "map fst (v_slots row) = order"
    and "1000 \<le> YearFromDay x \<longrightarrow> row_reflects s row x"
    and "YearFromDay x < 1000 \<longrightarrow>
           (\<forall>sl sv. (sl, sv) \<in> set (v_slots row) \<longrightarrow> sv_open sv \<and> \<not> sv_booked sv)"
proof -
  let ?dates = "availability_window now qstart qdays"
  from assms(4,6) have ne: "?dates \<noteq> []" by auto
  from availability_window_days [OF ne] obtain t n
    where dates: "?dates = map (\<lambda>x. toISODate (Some x)) (window_days t n)" by blast
  let ?xs = "window_days t n"
  from ne dates have xne: "?xs \<noteq> []" by auto
  from assms(2,3) have lh': "date_in (toISODate (Some (hd ?xs))) = Some l"
      "date_in (toISODate (Some (last ?xs))) = Some h"
    unfolding dates by (simp_all add: hd_map [OF xne] last_map [OF xne])
  from assms(6) obtain x where x: "x \<in> set ?xs"
      "row = \<lparr>v_date = toISODate (Some x),
              v_slots = merged_slots order label (booked_keys s l h) (override_map s l h)
                          (toISODate (Some x))\<rparr>"
    unfolding assms(4) dates by auto
  from window_in_range [OF refl xne lh' x(1)]
  have r: "l \<le> x" "x \<le> h" "1 \<le> YearFromDay l" "YearFromDay h \<le> 5874897"
    "100 \<le> YearFromDay x" "date_in (toISODate (Some x)) = Some x" by blast+
  have a: "v_date row = toISODate (Some x)" by (simp add: x(2))
  have b: "date_in (v_date row) = Some x" using r(6) by (simp add: x(2))
  have c: "map fst (v_slots row) = order" by (simp add: x(2) merged_slots_order)
  have d: "1000 \<le> YearFromDay x \<longrightarrow> row_reflects s row x"
  proof
    assume y: "1000 \<le> YearFromDay x"
    have row: "v_slots row = merged_slots order label (booked_keys s l h) (override_map s l h)
                          (date_out x)"
      by (simp add: x(2) toISODate_date_out [OF y])
    show "row_reflects s row x"
      unfolding row_reflects_def row
      using merged_slot_reflects [OF assms(1) r(3,4,1,2) assms(5)] by blast
  qed
  have e: "YearFromDay x < 1000 \<longrightarrow>
           (\<forall>sl sv. (sl, sv) \<in> set (v_slots row) \<longrightarrow> sv_open sv \<and> \<not> sv_booked sv)"
  proof (intro impI allI)
    fix sl sv
    assume y: "YearFromDay x < 1000" and m: "(sl, sv) \<in> set (v_slots row)"
    have "length (toISODate (Some x)) < 10"
      using length_toISODate_short [of x] r(5) y by simp
    from merged_slot_short [OF assms(1) this assms(5)] m
    show "sv_open sv \<and> \<not> sv_booked sv" by (simp add: x(2))
  qed
  show ?thesis by (rule that [OF a b c d e])
qed

lemma order_lengths:
  "\<forall>sl \<in> set [''C'', ''A'', ''B'']. length sl = 1" "\<forall>sl \<in> set [''A'', ''B'']. length sl = 1"
  by simp_all

lemma view_nonempty:
  assumes "availability now qstart qdays s = Inr view \<or>
           availability_earlier now qstart qdays s = Inr view" "row \<in> set view"
  shows "availability_window now qstart qdays \<noteq> []"
proof
  assume "availability_window now qstart qdays = []"
  with assms(1) have "view = []" by (auto simp: availability_def availability_earlier_def)
  with assms(2) show False by simp
qed

text \<open>The rows of the view of either revision.\<close>

lemma availability_rows:
  assumes "constraints_hold s"
    and "availability now qstart qdays s = Inr view \<or>
         availability_earlier now qstart qdays s = Inr view"
    and "row \<in> set view"
  obtains x where "v_date row = toISODate (Some x)" and "date_in (v_date row) = Some x"
    and "1000 \<le> YearFromDay x \<longrightarrow> row_reflects s row x"
    and "YearFromDay x < 1000 \<longrightarrow>
           (\<forall>sl sv. (sl, sv) \<in> set (v_slots row) \<longrightarrow> sv_open sv \<and> \<not> sv_booked sv)"
proof -
  note ne = view_nonempty [OF assms(2,3)]
  from assms(2) show ?thesis
  proof
    assume "availability now qstart qdays s = Inr view"
    from availability_unfold [OF this ne] obtain l h
      where lh: "date_in (hd (availability_window now qstart qdays)) = Some l"
        "date_in (last (availability_window now qstart qdays)) = Some h"
        "view = map (\<lambda>date. \<lparr>v_date = date,
                          v_slots = merged_slots [''C'', ''A'', ''B''] slot_label
                                      (booked_keys s l h) (override_map s l h) date\<rparr>)
                        (availability_window now qstart qdays)"
      by blast
    show ?thesis
      by (rule merged_view_rows [OF assms(1) lh order_lengths(1) assms(3)]) (rule that)
  next
    assume "availability_earlier now qstart qdays s = Inr view"
    from availability_earlier_unfold [OF this ne] obtain l h
      where lh: "date_in (hd (availability_window now qstart qdays)) = Some l"
        "date_in (last (availability_window now qstart qdays)) = Some h"
        "view = map (\<lambda>date. \<lparr>v_date = date,
                          v_slots = merged_slots [''A'', ''B''] slot_label_earlier
                                      (booked_keys s l h) (override_map s l h) date\<rparr>)
                        (availability_window now qstart qdays)"
      by blast
    show ?thesis
      by (rule merged_view_rows [OF assms(1) lh order_lengths(2) assms(3)]) (rule that)
  qed
qed

text \<open>
  From the year 1000 on, the view of either revision reflects the tables: in every
  state that satisfies the constraints of the schema, a row of an answered request
  whose date is a day \<open>d\<close> of the year 1000 or later reports, for every slot, \<open>booked\<close>
  exactly when a booking exists for \<open>d\<close> and the slot, and \<open>open\<close> as the specification
  asks.
\<close>

lemma availability_reflects:
  assumes "constraints_hold s"
    and "availability now qstart qdays s = Inr view \<or>
         availability_earlier now qstart qdays s = Inr view"
    and "row \<in> set view" "date_in (v_date row) = Some d" "1000 \<le> YearFromDay d"
  shows "row_reflects s row d"
proof -
  obtain x where x: "date_in (v_date row) = Some x" "1000 \<le> YearFromDay x \<longrightarrow> row_reflects s row x"
    by (rule availability_rows [OF assms(1-3)])
  with assms(4,5) show ?thesis by simp
qed

lemma availability_dates:
  assumes "availability now qstart qdays s = Inr view"
  shows "map v_date view = availability_window now qstart qdays"
proof (cases "availability_window now qstart qdays = []")
  case True
  with assms show ?thesis by (simp add: availability_def)
next
  case False
  from availability_unfold [OF assms False] obtain l h
    where "view = map (\<lambda>date. \<lparr>v_date = date,
                          v_slots = merged_slots [''C'', ''A'', ''B''] slot_label
                                      (booked_keys s l h) (override_map s l h) date\<rparr>)
                    (availability_window now qstart qdays)" by blast
  then show ?thesis by (simp add: comp_def)
qed

text \<open>Evaluations at the year 999.\<close>

lemma eval_close_999:
  "admin_slot_earlier 1717372800000 req_close_999 empty_db = (Slot_ok_bare, db_closed_999)"
  by code_simp

lemma eval_window_999:
  "availability_window 1717372800000 (Some ''0999-12-30'') (Some ''1'') = [''999-12-30'']"
  by code_simp

lemma eval_date_999:
  "date_in ''999-12-30'' = Some (- 354287)" "date_in ''0999-12-30'' = Some (- 354287)"
  "date_out (- 354287) = ''0999-12-30''"
  by code_simp+

lemma eval_availability_999:
  "availability 1717372800000 (Some ''0999-12-30'') (Some ''1'') db_closed_999 =
     Inr [row_all_free ''999-12-30'']"
  by code_simp

lemma eval_availability_earlier_999:
  "availability_earlier 1717372800000 (Some ''0999-12-30'') (Some ''1'') db_closed_999 =
     Inr [row_all_free_earlier ''999-12-30'']"
  by code_simp

text \<open>
  Claim C2. The administrator closes slot A of 0999-12-30 (a Monday) through the slot
  endpoint of the earlier revision; the override is stored with \<open>is_open = false\<close>. A
  request for the availability from \<open>start=0999-12-30\<close> for one day is answered by both
  revisions with the row of that day, in which slot A is open, although an override
  exists for the pair and closes it. The server prints the date of the window without
  padding the year, \<open>999-12-30\<close>; the storage reads that text as the day of the override,
  and prints the date of the override, from which the key of the lookup is built, with
  the year padded to four digits, \<open>0999-12-30\<close>: the two keys differ and the override is
  not found.
\<close>

theorem availability_misses_closed_slot:
  "admin_slot_earlier 1717372800000 req_close_999 empty_db = (Slot_ok_bare, db_closed_999)
   \<and> map o_is_open (slot_overrides db_closed_999) = [False]
   \<and> map o_date (slot_overrides db_closed_999) = [- 354287]
   \<and> availability_window 1717372800000 (Some ''0999-12-30'') (Some ''1'') = [''999-12-30'']
   \<and> date_in ''999-12-30'' = Some (- 354287)
   \<and> date_out (- 354287) = ''0999-12-30''
   \<and> availability 1717372800000 (Some ''0999-12-30'') (Some ''1'') db_closed_999 =
       Inr [row_all_free ''999-12-30'']
   \<and> availability_earlier 1717372800000 (Some ''0999-12-30'') (Some ''1'') db_closed_999 =
       Inr [row_all_free_earlier ''999-12-30'']
   \<and> map (\<lambda>(sl, sv). (sl, sv_open sv)) (v_slots (row_all_free ''999-12-30'')) =
       [(''C'', True), (''A'', True), (''B'', True)]"
  by (simp add: eval_close_999 eval_window_999 eval_date_999 eval_availability_999
      eval_availability_earlier_999)
    (simp add: db_closed_999_def row_all_free_def slot_free_def)




lemma eval_cancel: "cancel (Some 1) db_juan_A = (Cancel_ok, db_after_cancel)"
  by (simp add: cancel_Some int4_max_def db_juan_A_def db_after_cancel_def)

lemma eval_availability_free:
  "availability 1717372800000 None (Some ''1'') db_after_cancel = Inr [row_all_free ''2024-06-03'']"
  by code_simp



section \<open>Requests that are answered\<close>

text \<open>The two ends of the years whose text has four digits.\<close>

lemma DayFromYear_1000: "DayFromYear 1000 = - 354285"
  by (simp add: DayFromYear_def)

lemma DayFromYear_10000: "DayFromYear 10000 = 2932897"
  by (simp add: DayFromYear_def)

lemma four_digit_year_clip:
  assumes "1000 \<le> YearFromDay x" "YearFromDay x \<le> 9999"
  shows "\<bar>x\<bar> \<le> 100000000"
proof -
  have "DayFromYear 1000 \<le> DayFromYear (YearFromDay x)"
    using assms(1) by (rule DayFromYear_mono)
  moreover have "DayFromYear (YearFromDay x + 1) \<le> DayFromYear 10000"
    using assms(2) by (intro DayFromYear_mono) simp
  ultimately show ?thesis
    using YearFromDay_bounds [of x] by (simp add: DayFromYear_1000 DayFromYear_10000)
qed

lemma todayCST_Day:
  assumes "1000 \<le> YearFromDay (Day now)" "YearFromDay (Day now) \<le> 9999"
  shows "todayCST now = Some (Day now)"
  using assms four_digit_year_clip [OF assms]
  by (simp add: todayCST_def getUTCFullYear_def getUTCMonth_def getUTCDate_def Date_UTC_def
      MakeDay_fields TimeClip_def)

text \<open>
  With the clock in the years 1000 to 9999 and no start parameter, the window starts
  today and the storage reads its two ends as the days they name: the availability
  request is answered by both revisions, in every state.
\<close>

lemma window_ends_read:
  assumes "1000 \<le> YearFromDay (Day now)" "YearFromDay (Day now + 30) \<le> 9999" "falsy qstart"
    and "availability_window now qstart qdays \<noteq> []"
  shows "\<exists>l h. date_in (hd (availability_window now qstart qdays)) = Some l
            \<and> date_in (last (availability_window now qstart qdays)) = Some h"
proof -
  let ?days = "Math_min (parseInt (or_default qdays ''14'')) 31"
  have y: "YearFromDay (Day now) \<le> 9999"
    using YearFromDay_mono [of "Day now" "Day now + 30"] assms(2) by simp
  have t: "todayCST now = Some (Day now)" using assms(1) y by (rule todayCST_Day)
  have p: "Date_parse (toISODate (Some (Day now)) @ ''T00:00:00Z'') = Some (Day now)"
    using assms(1) y four_digit_year_clip [OF assms(1) y] by (rule Date_parse_toISODate)
  have w: "availability_window now qstart qdays = rollingWindow (toISODate (Some (Day now))) ?days"
    using assms(3) by (auto simp: availability_window_def or_default_def falsy_def t split: option.splits)
  from assms(4) w obtain n where n: "?days = Some n"
    by (cases ?days) (simp_all add: rollingWindow_NaN)
  hence n31: "n \<le> 31" by (auto simp: Math_min_def)
  let ?xs = "window_days (Day now) n"
  have dates: "availability_window now qstart qdays = map (\<lambda>x. toISODate (Some x)) ?xs"
    unfolding w n by (rule rollingWindow_days [OF p])
  with assms(4) have xne: "?xs \<noteq> []" by auto
  have acc: "date_in (toISODate (Some x)) = Some x" if "x \<in> set ?xs" for x
  proof -
    from window_days_range [OF that] n31 have b: "Day now \<le> x" "x \<le> Day now + 30" by simp_all
    from YearFromDay_mono [OF b(1)] YearFromDay_mono [OF b(2)] assms(1,2)
    show ?thesis by (intro date_in_toISODate) simp_all
  qed
  have "hd ?xs \<in> set ?xs" "last ?xs \<in> set ?xs" using xne by simp_all
  hence "date_in (hd (availability_window now qstart qdays)) = Some (hd ?xs)"
    "date_in (last (availability_window now qstart qdays)) = Some (last ?xs)"
    unfolding dates by (simp_all add: hd_map [OF xne] last_map [OF xne] acc)
  then show ?thesis by blast
qed

lemma availability_answers:
  assumes "1000 \<le> YearFromDay (Day now)" "YearFromDay (Day now + 30) \<le> 9999" "falsy qstart"
  shows "\<exists>view. availability now qstart qdays s = Inr view"
    and "\<exists>view. availability_earlier now qstart qdays s = Inr view"
proof -
  show "\<exists>view. availability now qstart qdays s = Inr view"
  proof (cases "availability_window now qstart qdays = []")
    case True
    then show ?thesis by (simp add: availability_def)
  next
    case False
    from window_ends_read [OF assms False] show ?thesis
      using False
      by (auto simp: availability_def select_bookings_between_def select_overrides_between_def
          Let_def)
  qed
  show "\<exists>view. availability_earlier now qstart qdays s = Inr view"
  proof (cases "availability_window now qstart qdays = []")
    case True
    then show ?thesis by (simp add: availability_earlier_def)
  next
    case False
    from window_ends_read [OF assms False] show ?thesis
      using False
      by (auto simp: availability_earlier_def select_bookings_between_def
          select_overrides_between_def Let_def)
  qed
qed

text \<open>
  With the clock in those years, every date of the booking window is read by the storage
  as the day it names, so that the statements of a \<open>/book\<close> call that reaches the
  transaction are not rejected for the date.
\<close>

lemma window_date_accepted:
  assumes "1000 \<le> YearFromDay (Day now)" "YearFromDay (Day now + 13) \<le> 9999"
    and "ds \<in> set (rollingWindow (toISODate (todayCST now)) (Some 14))"
  shows "\<exists>x. date_in ds = Some x \<and> ds = toISODate (Some x) \<and> Day now \<le> x \<and> x \<le> Day now + 13
            \<and> 1 \<le> WeekDay x \<and> WeekDay x \<le> 5"
proof -
  have y: "YearFromDay (Day now) \<le> 9999"
    using YearFromDay_mono [of "Day now" "Day now + 13"] assms(2) by simp
  have t: "todayCST now = Some (Day now)"
    using assms(1) y by (rule todayCST_Day)
  have p: "Date_parse (toISODate (Some (Day now)) @ ''T00:00:00Z'') = Some (Day now)"
    using assms(1) y four_digit_year_clip [OF assms(1) y] by (rule Date_parse_toISODate)
  from assms(3) obtain x where x: "x \<in> set (window_days (Day now) 14)" "ds = toISODate (Some x)"
    unfolding t rollingWindow_days [OF p] by auto
  from window_days_range [OF x(1)] have r: "Day now \<le> x" "x \<le> Day now + 13"
      "1 \<le> WeekDay x" "WeekDay x \<le> 5" by simp_all
  have "100 \<le> YearFromDay x" "YearFromDay x \<le> 5874897"
    using YearFromDay_mono [OF r(1)] YearFromDay_mono [OF r(2)] assms(1,2) by simp_all
  hence "date_in (toISODate (Some x)) = Some x" by (rule date_in_toISODate)
  with x(2) r show ?thesis by blast
qed

end
